theory Spec2Isabelle
  imports Main "HOL-Library.Word"
begin

section \<open>Notion journal export: shallow embedding of exportNotionJournalToObsidian.ts\<close>

text \<open>
  JavaScript strings are modelled as \<^typ>\<open>string\<close>: one \<^typ>\<open>char\<close> stands for one
  code unit, so the model covers the code units \<open>0x00\<close> to \<open>0xFF\<close>. The function
  \<open>sanitizeFileName\<close>, whose character classes reach beyond that range, is given a second
  time on lists of 16-bit code units, which covers every JavaScript string. Values of type
  \<open>string | null\<close> are \<^typ>\<open>string option\<close>. A promise is modelled by its outcome: a
  rejection is \<open>Inl\<close> of an error, a fulfilment is \<open>Inr\<close> of the value.
\<close>

subsection \<open>JavaScript string primitives used by the script\<close>

definition LF :: char where "LF = CHR 0x0A"
definition CR :: char where "CR = CHR 0x0D"
definition BACKTICK :: char where "BACKTICK = CHR 0x60"
definition DQUOTE :: char where "DQUOTE = CHR 0x22"
definition BACKSLASH :: char where "BACKSLASH = CHR 0x5C"

text \<open>
  A condition on a \<open>string | null\<close> value (\<open>item.href ? \<dots>\<close>, \<open>\<dots> && response.next_cursor\<close>)
  is JavaScript truthiness: \<open>null\<close> and the empty string are falsy. The model writes it as a
  case distinction on the option with the test \<open>s \<noteq> []\<close>.
\<close>

text \<open>
  The class \<open>\s\<close> of a regular expression, which is also what \<open>String.prototype.trim\<close>
  strips: tab, line feed, vertical tab, form feed, carriage return, space and the
  no-break space. These are the members below \<open>0x100\<close>, all that the 8-bit characters of
  the model can hold; \<open>is_ws_unit\<close> below is the whole class.
\<close>

definition is_ws :: "char \<Rightarrow> bool" where
  "is_ws c \<longleftrightarrow> c = CHR 0x09 \<or> c = CHR 0x0A \<or> c = CHR 0x0B \<or> c = CHR 0x0C
     \<or> c = CHR 0x0D \<or> c = CHR 0x20 \<or> c = CHR 0xA0"

definition js_trim :: "string \<Rightarrow> string" where
  "js_trim s = rev (dropWhile is_ws (rev (dropWhile is_ws s)))"

text \<open>\<open>Array.prototype.join\<close> on an array of strings.\<close>

fun js_join :: "'a list \<Rightarrow> 'a list list \<Rightarrow> 'a list" where
  "js_join sep [] = []"
| "js_join sep [x] = x"
| "js_join sep (x # y # ys) = x @ sep @ js_join sep (y # ys)"

text \<open>\<open>`${index}`\<close> for a non-negative integer: its decimal digits.\<close>

definition digit_char :: "nat \<Rightarrow> char" where
  "digit_char d =
     (if d = 0 then CHR ''0'' else if d = 1 then CHR ''1'' else if d = 2 then CHR ''2''
      else if d = 3 then CHR ''3'' else if d = 4 then CHR ''4'' else if d = 5 then CHR ''5''
      else if d = 6 then CHR ''6'' else if d = 7 then CHR ''7'' else if d = 8 then CHR ''8''
      else CHR ''9'')"

fun string_of_nat :: "nat \<Rightarrow> string" where
  "string_of_nat n =
     (if n < 10 then [digit_char n] else string_of_nat (n div 10) @ [digit_char (n mod 10)])"

declare string_of_nat.simps [simp del]

text \<open>\<open>normalizeText\<close>: \<open>value.replace(/\r\n/g, "\n")\<close>.\<close>

fun normalizeText :: "string \<Rightarrow> string" where
  "normalizeText [] = []"
| "normalizeText [c] = [c]"
| "normalizeText (c # d # cs) =
     (if c = CR \<and> d = LF then LF # normalizeText cs else c # normalizeText (d # cs))"

subsection \<open>Rich text\<close>

record annotations =
  bold :: bool
  italic :: bool
  strikethrough :: bool
  underline :: bool
  code :: bool

datatype rich_text_type = TextItem | MentionItem | EquationItem (expression: string)

record rich_text_item =
  plain_text :: string
  annotations :: annotations
  href :: "string option"
  item_type :: rich_text_type

type_synonym rich_text = "rich_text_item list"

text \<open>The callback that \<open>toInlineMarkdown\<close> maps over the runs.\<close>

definition toInlineMarkdown_item :: "rich_text_item \<Rightarrow> string" where
  "toInlineMarkdown_item item =
     (let base = plain_text item in
      case item_type item of
        EquationItem expr \<Rightarrow> ''$'' @ expr @ ''$''
      | _ \<Rightarrow>
        (let withCode = (if code (annotations item) then [BACKTICK] @ base @ [BACKTICK] else base);
             withBold = (if bold (annotations item) then ''**'' @ withCode @ ''**'' else withCode);
             withItalic = (if italic (annotations item) then ''*'' @ withBold @ ''*'' else withBold);
             withStrike = (if strikethrough (annotations item)
                           then ''~~'' @ withItalic @ ''~~'' else withItalic);
             withUnderline = (if underline (annotations item)
                              then ''<u>'' @ withStrike @ ''</u>'' else withStrike);
             withLink = (case href item of
                           None \<Rightarrow> withUnderline
                         | Some target \<Rightarrow>
                             if target \<noteq> [] then ''['' @ withUnderline @ '']('' @ target @ '')''
                             else withUnderline)
         in withLink))"

definition toInlineMarkdown :: "rich_text \<Rightarrow> string" where
  "toInlineMarkdown richText = concat (map toInlineMarkdown_item richText)"

subsection \<open>File names\<close>

text \<open>The character class \<open>[<>:"/\\|?*\x00-\x1F]\<close> of \<open>sanitizeFileName\<close>.\<close>

definition unsafe_char :: "char \<Rightarrow> bool" where
  "unsafe_char c \<longleftrightarrow> c = CHR ''<'' \<or> c = CHR ''>'' \<or> c = CHR '':'' \<or> c = DQUOTE
     \<or> c = CHR ''/'' \<or> c = BACKSLASH \<or> c = CHR ''|'' \<or> c = CHR ''?'' \<or> c = CHR ''*''
     \<or> (of_char c :: nat) \<le> 0x1F"

text \<open>\<open>.replace(/\s+/g, " ")\<close>: every maximal run of white space becomes one space.\<close>

function collapse_ws :: "string \<Rightarrow> string" where
  "collapse_ws [] = []"
| "collapse_ws (c # cs) =
     (if is_ws c then CHR '' '' # collapse_ws (dropWhile is_ws cs) else c # collapse_ws cs)"
  by pat_completeness auto
termination
  by (relation "measure length") (auto simp: length_dropWhile_le less_Suc_eq_le)

definition sanitizeFileName :: "string \<Rightarrow> string" where
  "sanitizeFileName name =
     take 180 (js_trim (collapse_ws (map (\<lambda>c. if unsafe_char c then CHR ''-'' else c) name)))"

text \<open>
  \<open>sanitizeFileName\<close> on the code units of a JavaScript string. The classes are those of
  the two regular expressions in full: \<open>\s\<close> holds the white space and line terminators of
  the language, \<open>[<>:"/\\|?*\x00-\x1F]\<close> the nine punctuation marks and the code units up
  to \<open>0x1F\<close>. \<open>trim_with\<close> and \<open>collapse_with\<close> are \<open>trim\<close> and the replacement of
  \<open>/\s+/g\<close> for a given white-space class.
\<close>

type_synonym code_unit = "16 word"

text \<open>The code units of a text of the 8-bit model.\<close>

definition utf16 :: "string \<Rightarrow> code_unit list" where
  "utf16 s = map of_char s"

definition is_ws_unit :: "code_unit \<Rightarrow> bool" where
  "is_ws_unit u \<longleftrightarrow> u = 0x09 \<or> u = 0x0A \<or> u = 0x0B \<or> u = 0x0C \<or> u = 0x0D \<or> u = 0x20
     \<or> u = 0xA0 \<or> u = 0x1680 \<or> (0x2000 \<le> u \<and> u \<le> 0x200A) \<or> u = 0x2028 \<or> u = 0x2029
     \<or> u = 0x202F \<or> u = 0x205F \<or> u = 0x3000 \<or> u = 0xFEFF"

definition unsafe_unit :: "code_unit \<Rightarrow> bool" where
  "unsafe_unit u \<longleftrightarrow> u = 0x3C \<or> u = 0x3E \<or> u = 0x3A \<or> u = 0x22 \<or> u = 0x2F \<or> u = 0x5C
     \<or> u = 0x7C \<or> u = 0x3F \<or> u = 0x2A \<or> u \<le> 0x1F"

definition trim_with :: "('c \<Rightarrow> bool) \<Rightarrow> 'c list \<Rightarrow> 'c list" where
  "trim_with ws s = rev (dropWhile ws (rev (dropWhile ws s)))"

function collapse_with :: "('c \<Rightarrow> bool) \<Rightarrow> 'c \<Rightarrow> 'c list \<Rightarrow> 'c list" where
  "collapse_with ws sp [] = []"
| "collapse_with ws sp (c # cs) =
     (if ws c then sp # collapse_with ws sp (dropWhile ws cs) else c # collapse_with ws sp cs)"
  by pat_completeness auto
termination
  by (relation "measure (\<lambda>(ws, sp, s). length s)")
     (auto simp: length_dropWhile_le less_Suc_eq_le)

definition sanitizeFileName_utf16 :: "code_unit list \<Rightarrow> code_unit list" where
  "sanitizeFileName_utf16 name =
     take 180 (trim_with is_ws_unit (collapse_with is_ws_unit 0x20
       (map (\<lambda>u. if unsafe_unit u then 0x2D else u) name)))"

text \<open>\<open>indent\<close>: \<open>"  ".repeat(depth)\<close>.\<close>

definition indent :: "nat \<Rightarrow> string" where
  "indent depth = concat (replicate depth ''  '')"

subsection \<open>Errors and promises\<close>

datatype error =
    ApiError string
  | NoDataSources string
  | NoPrimaryDataSource string
  | AllocationExhausted string

text \<open>
  The outcome of a promise: \<open>Some (Inr v)\<close> fulfilled with \<open>v\<close>, \<open>Some (Inl e)\<close> rejected
  with \<open>e\<close>, \<open>None\<close> never settled (a pagination that does not end, or a block tree deeper
  than the recursion budget of the model).
\<close>

type_synonym 'a promise = "(error + 'a) option"

definition resolved :: "'a \<Rightarrow> 'a promise" where
  "resolved v = Some (Inr v)"

definition rejected :: "error \<Rightarrow> 'a promise" where
  "rejected e = Some (Inl e)"

definition await :: "'a promise \<Rightarrow> ('a \<Rightarrow> 'b promise) \<Rightarrow> 'b promise" where
  "await p k = (case p of None \<Rightarrow> None | Some (Inl e) \<Rightarrow> Some (Inl e) | Some (Inr v) \<Rightarrow> k v)"

text \<open>
  \<open>Promise.all\<close>: rejected as soon as one member is rejected, fulfilled with all values
  when every member is fulfilled. The model has no time: when several members are rejected
  it reports the first in list order, where the code reports the one rejected first in
  time. The fulfilled outcome and whether the outcome is a rejection are exact.
\<close>

fun promise_all :: "'a promise list \<Rightarrow> 'a list promise" where
  "promise_all [] = Some (Inr [])"
| "promise_all (p # ps) =
     (case p of
        Some (Inl e) \<Rightarrow> Some (Inl e)
      | None \<Rightarrow> (case promise_all ps of Some (Inl e) \<Rightarrow> Some (Inl e) | _ \<Rightarrow> None)
      | Some (Inr v) \<Rightarrow>
          (case promise_all ps of
             Some (Inr vs) \<Rightarrow> Some (Inr (v # vs))
           | Some (Inl e) \<Rightarrow> Some (Inl e)
           | None \<Rightarrow> None))"

subsection \<open>Blocks\<close>

text \<open>A file object is a union tagged \<open>external\<close> or \<open>file\<close>; each carries one URL.\<close>

datatype file_object = External string | Hosted string

text \<open>\<open>x.type === "external" ? x.external.url : x.file.url\<close>\<close>

fun file_url :: "file_object \<Rightarrow> string" where
  "file_url (External u) = u"
| "file_url (Hosted u) = u"

datatype icon = Emoji string | OtherIcon

text \<open>
  The payload of a block, by its \<open>type\<close>. \<open>Unsupported\<close> stands for every type the script
  has no branch for (tables, columns, embeds, synced blocks and so on).
\<close>

datatype block_content =
    Paragraph rich_text
  | Heading_1 rich_text
  | Heading_2 rich_text
  | Heading_3 rich_text
  | To_do bool rich_text
  | Toggle rich_text
  | Quote rich_text
  | Callout "icon option" rich_text
  | Code "string option" rich_text
  | Divider
  | Equation string
  | Image file_object rich_text
  | Bookmark string
  | File file_object rich_text
  | Video file_object rich_text
  | Audio file_object rich_text
  | Pdf file_object rich_text
  | Link_preview string
  | Child_page string
  | Child_database string
  | Table_of_contents
  | Bulleted_list_item rich_text
  | Numbered_list_item rich_text
  | Unsupported string

record block =
  id_block :: string
  has_children :: bool
  content :: block_content

subsection \<open>The Notion client\<close>

text \<open>An entry of a listing is a full record or a partial one (only its identifier).\<close>

datatype 'a entry = Full 'a | Partial string

text \<open>\<open>results.filter(isFullBlock)\<close>, \<open>results.filter(isFullPage)\<close>\<close>

fun full_entries :: "'a entry list \<Rightarrow> 'a list" where
  "full_entries [] = []"
| "full_entries (Full x # es) = x # full_entries es"
| "full_entries (Partial i # es) = full_entries es"

record 'a list_response =
  results :: "'a entry list"
  has_more :: bool
  next_cursor :: "string option"

record children_args =
  block_id :: string
  page_size :: nat
  start_cursor :: "string option"

record query_args =
  data_source_id :: string
  query_page_size :: nat
  query_start_cursor :: "string option"

datatype property = TitleProperty rich_text | OtherProperty string

record page =
  id_page :: string
  created_time :: string
  properties :: "(string \<times> property) list"

record data_source =
  id_data_source :: string
  name_data_source :: string

text \<open>\<open>data_sources\<close> is \<open>None\<close> when the retrieved object has no such field.\<close>

record database =
  data_sources :: "data_source list option"

text \<open>
  The client: each endpoint answers a request with a response or fails. The endpoints are
  functions of the request, so the same request gets the same answer.
\<close>

record notion =
  blocks_children_list :: "children_args \<Rightarrow> error + block list_response"
  databases_retrieve :: "string \<Rightarrow> error + database"
  dataSources_query :: "query_args \<Rightarrow> error + page list_response"

subsection \<open>Rendering one block\<close>

text \<open>
  The branches of \<open>stringifyBlock\<close> on \<open>block.type\<close>, given the depth and the text
  \<open>nestedMarkdown\<close> computed from the children.
\<close>

fun stringifyBlock_dispatch :: "block_content \<Rightarrow> nat \<Rightarrow> string \<Rightarrow> string" where
  "stringifyBlock_dispatch (Paragraph rt) depth nestedMarkdown =
     (let text = toInlineMarkdown rt
      in if length text > 0 then indent depth @ text @ nestedMarkdown else [])"
| "stringifyBlock_dispatch (Heading_1 rt) depth nestedMarkdown =
     indent depth @ ''# '' @ toInlineMarkdown rt"
| "stringifyBlock_dispatch (Heading_2 rt) depth nestedMarkdown =
     indent depth @ ''## '' @ toInlineMarkdown rt"
| "stringifyBlock_dispatch (Heading_3 rt) depth nestedMarkdown =
     indent depth @ ''### '' @ toInlineMarkdown rt"
| "stringifyBlock_dispatch (To_do checked rt) depth nestedMarkdown =
     (let checked = (if checked then ''x'' else '' '')
      in indent depth @ ''- ['' @ checked @ ''] '' @ toInlineMarkdown rt @ nestedMarkdown)"
| "stringifyBlock_dispatch (Toggle rt) depth nestedMarkdown =
     indent depth @ ''- '' @ toInlineMarkdown rt @ nestedMarkdown"
| "stringifyBlock_dispatch (Quote rt) depth nestedMarkdown =
     indent depth @ ''> '' @ toInlineMarkdown rt @ nestedMarkdown"
| "stringifyBlock_dispatch (Callout ic rt) depth nestedMarkdown =
     (let icon = (case ic of Some (Emoji emoji) \<Rightarrow> emoji @ '' '' | _ \<Rightarrow> [])
      in indent depth @ ''> '' @ icon @ toInlineMarkdown rt @ nestedMarkdown)"
| "stringifyBlock_dispatch (Code lang rt) depth nestedMarkdown =
     (let language = (case lang of Some l \<Rightarrow> l | None \<Rightarrow> ''text'');
          body = toInlineMarkdown rt
      in indent depth @ [BACKTICK, BACKTICK, BACKTICK] @ language @ [LF] @ body @ [LF]
         @ indent depth @ [BACKTICK, BACKTICK, BACKTICK])"
| "stringifyBlock_dispatch Divider depth nestedMarkdown = indent depth @ ''---''"
| "stringifyBlock_dispatch (Equation expr) depth nestedMarkdown =
     indent depth @ ''$$'' @ expr @ ''$$''"
| "stringifyBlock_dispatch (Image img cap) depth nestedMarkdown =
     (let imageUrl = file_url img;
          caption = toInlineMarkdown cap;
          alt = (if length caption > 0 then caption else ''image'')
      in indent depth @ ''!['' @ alt @ '']('' @ imageUrl @ '')'')"
| "stringifyBlock_dispatch (Bookmark u) depth nestedMarkdown =
     indent depth @ ''['' @ u @ '']('' @ u @ '')''"
| "stringifyBlock_dispatch (File f cap) depth nestedMarkdown =
     (let fileUrl = file_url f;
          caption = toInlineMarkdown cap;
          label = (if length caption > 0 then caption else ''file'')
      in indent depth @ ''['' @ label @ '']('' @ fileUrl @ '')'')"
| "stringifyBlock_dispatch (Video v cap) depth nestedMarkdown =
     (let videoUrl = file_url v in indent depth @ ''[video]('' @ videoUrl @ '')'')"
| "stringifyBlock_dispatch (Audio a cap) depth nestedMarkdown =
     (let audioUrl = file_url a in indent depth @ ''[audio]('' @ audioUrl @ '')'')"
| "stringifyBlock_dispatch (Pdf f cap) depth nestedMarkdown =
     (let pdfUrl = file_url f in indent depth @ ''[pdf]('' @ pdfUrl @ '')'')"
| "stringifyBlock_dispatch (Link_preview u) depth nestedMarkdown =
     indent depth @ ''['' @ u @ '']('' @ u @ '')''"
| "stringifyBlock_dispatch (Child_page title) depth nestedMarkdown =
     indent depth @ ''## '' @ title"
| "stringifyBlock_dispatch (Child_database title) depth nestedMarkdown =
     indent depth @ ''## '' @ title"
| "stringifyBlock_dispatch Table_of_contents depth nestedMarkdown =
     indent depth @ ''[Table of Contents]''"
| "stringifyBlock_dispatch (Bulleted_list_item rt) depth nestedMarkdown =
     (let label = ''-'' in indent depth @ label @ '' '' @ toInlineMarkdown rt @ nestedMarkdown)"
| "stringifyBlock_dispatch (Numbered_list_item rt) depth nestedMarkdown =
     (let label = ''1.'' in indent depth @ label @ '' '' @ toInlineMarkdown rt @ nestedMarkdown)"
| "stringifyBlock_dispatch (Unsupported t) depth nestedMarkdown = []"

subsection \<open>Paginated listings\<close>

text \<open>
  The requests a listing sends are an effect of the code; the model returns them, in the
  order sent, beside the outcome. \<open>None\<close> is a listing that never ends.
\<close>

type_synonym ('r, 'a) logged = "('r list \<times> (error + 'a)) option"

definition outcome :: "('r, 'a) logged \<Rightarrow> 'a promise" where
  "outcome l = map_option snd l"

text \<open>The inner \<open>fetchPage\<close> of \<open>fetchBlocksRecursively\<close>; \<open>sent\<close> are the requests so far.\<close>

partial_function (option) fetchPage_blocks ::
  "notion \<Rightarrow> string \<Rightarrow> string option \<Rightarrow> block list \<Rightarrow> children_args list
     \<Rightarrow> (children_args list \<times> (error + block list)) option"
where
  "fetchPage_blocks notion blockId cursor acc sent =
     (let request = \<lparr>block_id = blockId, page_size = 100, start_cursor = cursor\<rparr>
      in case blocks_children_list notion request of
           Inl e \<Rightarrow> Some (sent @ [request], Inl e)
         | Inr response \<Rightarrow>
            (let fullBlocks = full_entries (results response);
                 nextAcc = acc @ fullBlocks
             in case next_cursor response of
                  None \<Rightarrow> Some (sent @ [request], Inr nextAcc)
                | Some next \<Rightarrow>
                    if has_more response \<and> next \<noteq> []
                    then fetchPage_blocks notion blockId (Some next) nextAcc (sent @ [request])
                    else Some (sent @ [request], Inr nextAcc)))"

declare fetchPage_blocks.simps [code]

definition fetchBlocksRecursively :: "notion \<Rightarrow> string \<Rightarrow> (children_args, block list) logged" where
  "fetchBlocksRecursively notion blockId = fetchPage_blocks notion blockId None [] []"

text \<open>The inner \<open>fetchPage\<close> of \<open>fetchAllPages\<close>.\<close>

partial_function (option) fetchPage_pages ::
  "notion \<Rightarrow> string \<Rightarrow> string option \<Rightarrow> page list \<Rightarrow> query_args list
     \<Rightarrow> (query_args list \<times> (error + page list)) option"
where
  "fetchPage_pages notion dataSourceId cursor acc sent =
     (let request = \<lparr>data_source_id = dataSourceId, query_page_size = 100,
                      query_start_cursor = cursor\<rparr>
      in case dataSources_query notion request of
           Inl e \<Rightarrow> Some (sent @ [request], Inl e)
         | Inr response \<Rightarrow>
            (let pages = full_entries (results response);
                 nextAcc = acc @ pages
             in case next_cursor response of
                  None \<Rightarrow> Some (sent @ [request], Inr nextAcc)
                | Some next \<Rightarrow>
                    if has_more response \<and> next \<noteq> []
                    then fetchPage_pages notion dataSourceId (Some next) nextAcc (sent @ [request])
                    else Some (sent @ [request], Inr nextAcc)))"

declare fetchPage_pages.simps [code]

definition fetchAllPages :: "notion \<Rightarrow> string \<Rightarrow> (query_args, page list) logged" where
  "fetchAllPages notion notionDatabaseId =
     (case databases_retrieve notion notionDatabaseId of
        Inl e \<Rightarrow> Some ([], Inl e)
      | Inr database \<Rightarrow>
         (case data_sources database of
            None \<Rightarrow>
              Some ([], Inl (NoDataSources
                (''Database '' @ notionDatabaseId @ '' has no data sources to query.'')))
          | Some sources \<Rightarrow>
              if length sources = 0
              then Some ([], Inl (NoDataSources
                     (''Database '' @ notionDatabaseId @ '' has no data sources to query.'')))
              else (case sources of
                      [] \<Rightarrow>
                        Some ([], Inl (NoPrimaryDataSource
                          (''Database '' @ notionDatabaseId
                             @ '' has no queryable primary data source.'')))
                    | firstDataSource # others \<Rightarrow>
                        (let dataSourceId = id_data_source firstDataSource
                         in fetchPage_pages notion dataSourceId None [] []))))"

subsection \<open>Rendering a block tree\<close>

text \<open>
  \<open>stringifyBlock\<close> lists the children of a block that has some and renders them one level
  deeper, so the recursion follows the remote tree. The first argument bounds its depth.
\<close>

fun stringifyBlock :: "nat \<Rightarrow> notion \<Rightarrow> block \<Rightarrow> nat \<Rightarrow> string promise"
  and stringifyBlocks :: "nat \<Rightarrow> notion \<Rightarrow> block list \<Rightarrow> nat \<Rightarrow> string promise"
where
  "stringifyBlock 0 notion block depth = None"
| "stringifyBlock (Suc fuel) notion block depth =
     await (if has_children block
            then outcome (fetchBlocksRecursively notion (id_block block))
            else resolved [])
       (\<lambda>nested.
          await (if length nested > 0
                 then await (stringifyBlocks fuel notion nested (depth + 1))
                        (\<lambda>rendered. resolved (LF # rendered))
                 else resolved [])
            (\<lambda>nestedMarkdown.
               resolved (stringifyBlock_dispatch (content block) depth nestedMarkdown)))"
| "stringifyBlocks fuel notion blocks depth =
     await (promise_all (map (\<lambda>block. stringifyBlock fuel notion block depth) blocks))
       (\<lambda>markdownLines.
          resolved (js_join [LF, LF]
            (filter (\<lambda>line. length (js_trim line) > 0) (map normalizeText markdownLines))))"

subsection \<open>Titles and unique file names\<close>

fun is_title :: "property \<Rightarrow> bool" where
  "is_title (TitleProperty rt) = True"
| "is_title (OtherProperty t) = False"

definition getTitle :: "page \<Rightarrow> string" where
  "getTitle page =
     (case find is_title (map snd (properties page)) of
        Some (TitleProperty rt) \<Rightarrow>
          (let title = js_trim (toInlineMarkdown rt)
           in if length title > 0 then title else ''Untitled-'' @ id_page page)
      | _ \<Rightarrow> ''Untitled-'' @ id_page page)"

text \<open>
  \<open>ensureUniqueFileName\<close> adds the name it returns to the set \<open>existing\<close>; the model returns
  the name and the new set. The probe runs over the indices \<open>2, \<dots>, 10001\<close>.
\<close>

definition ensureUniqueFileName :: "string \<Rightarrow> string set \<Rightarrow> error + (string \<times> string set)" where
  "ensureUniqueFileName desiredName existing =
     (let baseName = (if length desiredName > 0 then desiredName else ''Untitled'');
          candidate = baseName @ ''.md''
      in if candidate \<notin> existing then Inr (candidate, insert candidate existing)
         else
           (case find (\<lambda>index. baseName @ '' ('' @ string_of_nat index @ '').md'' \<notin> existing)
                   (map (\<lambda>i. i + 2) [0..<10000]) of
              None \<Rightarrow>
                Inl (AllocationExhausted (''Could not allocate unique filename for '' @ baseName))
            | Some match \<Rightarrow>
                (let unique = baseName @ '' ('' @ string_of_nat match @ '').md''
                 in Inr (unique, insert unique existing))))"

text \<open>
  The names of a batch: \<open>run\<close> maps \<open>ensureUniqueFileName\<close> over the pages in order, with
  one set \<open>usedNames\<close> shared by all calls. An exhausted probe ends the batch.
\<close>

fun ensureUniqueFileNames :: "string list \<Rightarrow> string set \<Rightarrow> error + (string list \<times> string set)" where
  "ensureUniqueFileNames [] usedNames = Inr ([], usedNames)"
| "ensureUniqueFileNames (desiredName # rest) usedNames =
     (case ensureUniqueFileName desiredName usedNames of
        Inl e \<Rightarrow> Inl e
      | Inr (fileName, usedNames') \<Rightarrow>
          (case ensureUniqueFileNames rest usedNames' of
             Inl e \<Rightarrow> Inl e
           | Inr (fileNames, usedNames'') \<Rightarrow> Inr (fileName # fileNames, usedNames'')))"

definition exportJobs :: "page list \<Rightarrow> error + (page \<times> string) list" where
  "exportJobs pages =
     (case ensureUniqueFileNames (map (\<lambda>page. sanitizeFileName (getTitle page)) pages) {} of
        Inl e \<Rightarrow> Inl e
      | Inr (fileNames, usedNames) \<Rightarrow> Inr (zip pages fileNames))"

subsection \<open>The export\<close>

definition formatDate :: "string \<Rightarrow> string" where
  "formatDate createdTime = take 10 createdTime"

text \<open>
  The callback of \<open>run\<close> for one job. Its effect is one \<open>writeFile\<close>; the model returns the
  file name and the content written. Creating the directory and writing the files belong
  to the file system and are taken to succeed.
\<close>

definition exportPage :: "nat \<Rightarrow> notion \<Rightarrow> page \<times> string \<Rightarrow> (string \<times> string) promise" where
  "exportPage fuel notion job =
     (case job of (page, fileName) \<Rightarrow>
        await (outcome (fetchBlocksRecursively notion (id_page page)))
          (\<lambda>blocks.
             await (stringifyBlocks fuel notion blocks 0)
               (\<lambda>content.
                  let frontmatter = ''---'' @ [LF] @ ''Written: '' @ formatDate (created_time page)
                                      @ [LF] @ ''---'';
                      markdown = frontmatter @ [LF, LF] @ content @ [LF]
                  in resolved (fileName, markdown))))"

definition run :: "nat \<Rightarrow> notion \<Rightarrow> string \<Rightarrow> (string \<times> string) list promise" where
  "run fuel notion notionDatabaseId =
     await (outcome (fetchAllPages notion notionDatabaseId))
       (\<lambda>pages.
          case exportJobs pages of
            Inl e \<Rightarrow> rejected e
          | Inr jobs \<Rightarrow> promise_all (map (exportPage fuel notion) jobs))"

subsection \<open>Notions used to state the properties\<close>

text \<open>The number of spaces a text starts with.\<close>

definition leading_spaces :: "string \<Rightarrow> nat" where
  "leading_spaces s = length (takeWhile (\<lambda>c. c = CHR '' '') s)"

text \<open>
  The words of a text: its maximal runs of characters that are not white space, in order.
\<close>

function words_with :: "('c \<Rightarrow> bool) \<Rightarrow> 'c list \<Rightarrow> 'c list list" where
  "words_with ws [] = []"
| "words_with ws (c # cs) =
     (if ws c then words_with ws cs
      else (c # takeWhile (\<lambda>x. \<not> ws x) cs) # words_with ws (dropWhile (\<lambda>x. \<not> ws x) cs))"
  by pat_completeness auto
termination
  by (relation "measure (\<lambda>(ws, s). length s)")
     (auto simp: length_dropWhile_le less_Suc_eq_le)

text \<open>The kinds of block whose rendering ends with the rendering of the children.\<close>

fun takes_children :: "block_content \<Rightarrow> bool" where
  "takes_children (Paragraph rt) = (toInlineMarkdown rt \<noteq> [])"
| "takes_children (To_do checked rt) = True"
| "takes_children (Toggle rt) = True"
| "takes_children (Quote rt) = True"
| "takes_children (Callout ic rt) = True"
| "takes_children (Bulleted_list_item rt) = True"
| "takes_children (Numbered_list_item rt) = True"
| "takes_children other = False"




subsection \<open>Sample workspaces\<close>

definition unstyled :: annotations where
  "unstyled = \<lparr>bold = False, italic = False, strikethrough = False, underline = False,
                code = False\<rparr>"

definition text_run :: "string \<Rightarrow> annotations \<Rightarrow> rich_text_item" where
  "text_run t a = \<lparr>plain_text = t, annotations = a, href = None, item_type = TextItem\<rparr>"

definition last_page :: "'a entry list \<Rightarrow> 'a list_response" where
  "last_page es = \<lparr>results = es, has_more = False, next_cursor = None\<rparr>"

text \<open>A client whose every request fails.\<close>

definition offline :: notion where
  "offline = \<lparr>blocks_children_list = (\<lambda>a. Inl (ApiError ''offline'')),
     databases_retrieve = (\<lambda>d. Inl (ApiError ''offline'')),
     dataSources_query = (\<lambda>a. Inl (ApiError ''offline''))\<rparr>"

text \<open>A workspace where the block \<open>parent\<close> has one child, the paragraph \<open>x\<close>.\<close>

definition outline :: notion where
  "outline = \<lparr>
     blocks_children_list = (\<lambda>a.
       if block_id a = ''parent''
       then Inr (last_page [Full \<lparr>id_block = ''child'', has_children = False,
                                  content = Paragraph [text_run ''x'' unstyled]\<rparr>])
       else Inl (ApiError ''object not found'')),
     databases_retrieve = (\<lambda>d. Inl (ApiError ''object not found'')),
     dataSources_query = (\<lambda>a. Inl (ApiError ''object not found''))\<rparr>"

text \<open>
  The journal of the end-to-end scenario: one page titled \<open>Trip\<close>, a paragraph with the
  bold text \<open>Packed bags\<close> and an unchecked to-do \<open>Buy tickets\<close>. In \<open>trip_nested\<close> the
  to-do is the child of the paragraph; in \<open>trip_flat\<close> it is the second block of the page.
\<close>

definition trip :: page where
  "trip = \<lparr>id_page = ''trip'', created_time = ''2024-03-01T10:00:00.000Z'',
     properties = [(''Name'', TitleProperty [text_run ''Trip'' unstyled])]\<rparr>"

definition packed_bags :: "bool \<Rightarrow> block" where
  "packed_bags hc = \<lparr>id_block = ''packed'', has_children = hc,
     content = Paragraph [text_run ''Packed bags'' (unstyled\<lparr>bold := True\<rparr>)]\<rparr>"

definition buy_tickets :: block where
  "buy_tickets = \<lparr>id_block = ''tickets'', has_children = False,
     content = To_do False [text_run ''Buy tickets'' unstyled]\<rparr>"

definition journal :: "(string \<Rightarrow> block list) \<Rightarrow> notion" where
  "journal children = \<lparr>
     blocks_children_list = (\<lambda>a. Inr (last_page (map Full (children (block_id a))))),
     databases_retrieve = (\<lambda>d. Inr \<lparr>data_sources =
        Some [\<lparr>id_data_source = ''journal'', name_data_source = ''Journal''\<rparr>]\<rparr>),
     dataSources_query = (\<lambda>a. Inr (last_page [Full trip]))\<rparr>"

definition trip_nested :: notion where
  "trip_nested = journal (\<lambda>i. if i = ''trip'' then [packed_bags True]
                              else if i = ''packed'' then [buy_tickets] else [])"

definition trip_flat :: notion where
  "trip_flat = journal (\<lambda>i. if i = ''trip'' then [packed_bags False, buy_tickets] else [])"


text \<open>A database with two data sources, each holding one page.\<close>

definition page_of :: "string \<Rightarrow> page" where
  "page_of i = \<lparr>id_page = i, created_time = ''2024-03-01T10:00:00.000Z'', properties = []\<rparr>"

definition two_sources_db :: database where
  "two_sources_db = \<lparr>data_sources =
     Some [\<lparr>id_data_source = ''first'', name_data_source = ''Journal''\<rparr>,
           \<lparr>id_data_source = ''second'', name_data_source = ''Archive''\<rparr>]\<rparr>"

definition two_sources :: notion where
  "two_sources = \<lparr>
     blocks_children_list = (\<lambda>a. Inr (last_page [])),
     databases_retrieve = (\<lambda>d. Inr two_sources_db),
     dataSources_query = (\<lambda>a.
       if data_source_id a = ''first'' then Inr (last_page [Full (page_of ''in-first'')])
       else Inr (last_page [Full (page_of ''in-second'')]))\<rparr>"

section \<open>Verified properties\<close>

subsection \<open>Inline text\<close>

lemma toInlineMarkdown_single: "toInlineMarkdown [item] = toInlineMarkdown_item item"
  by (simp add: toInlineMarkdown_def)

lemma toInlineMarkdown_Cons:
  "toInlineMarkdown (item # rest) = toInlineMarkdown [item] @ toInlineMarkdown rest"
  by (simp add: toInlineMarkdown_def)

text \<open>
  C1. In a text of any number of runs, every run that is not an expression contributes, at
  its place, its plain text wrapped in the fixed order inline code (innermost), bold,
  italic, strikethrough, underline, hyperlink (outermost), each wrapper only when its
  annotation is set: the opening markers from the outermost to the innermost, the plain
  text, and the closing markers from the innermost to the outermost, for every combination
  of the five annotations. In particular a run with bold, italic and a link target \<open>url\<close>
  set (and no other style) contributes \<open>[***text***](url)\<close>. The link is applied when
  \<open>href\<close> is truthy, that is, a non-empty string. An expression contributes its expression
  between dollar signs, and the empty text renders as the empty string.
\<close>

theorem toInlineMarkdown_nesting_order:
  "toInlineMarkdown [] = []
   \<and> (item_type item = TextItem \<or> item_type item = MentionItem \<longrightarrow>
        toInlineMarkdown (before @ item # after) =
          toInlineMarkdown before
          @ (case href item of None \<Rightarrow> [] | Some target \<Rightarrow> if target \<noteq> [] then ''['' else [])
          @ (if underline (annotations item) then ''<u>'' else [])
          @ (if strikethrough (annotations item) then ''~~'' else [])
          @ (if italic (annotations item) then ''*'' else [])
          @ (if bold (annotations item) then ''**'' else [])
          @ (if code (annotations item) then [BACKTICK] else [])
          @ plain_text item
          @ (if code (annotations item) then [BACKTICK] else [])
          @ (if bold (annotations item) then ''**'' else [])
          @ (if italic (annotations item) then ''*'' else [])
          @ (if strikethrough (annotations item) then ''~~'' else [])
          @ (if underline (annotations item) then ''</u>'' else [])
          @ (case href item of None \<Rightarrow> []
             | Some target \<Rightarrow> if target \<noteq> [] then '']('' @ target @ '')'' else [])
          @ toInlineMarkdown after)
   \<and> ((item_type item = TextItem \<or> item_type item = MentionItem)
        \<and> bold (annotations item) \<and> italic (annotations item) \<and> \<not> code (annotations item)
        \<and> \<not> strikethrough (annotations item) \<and> \<not> underline (annotations item)
        \<and> href item = Some url \<and> url \<noteq> [] \<longrightarrow>
        toInlineMarkdown (before @ item # after) =
          toInlineMarkdown before @ ''[***'' @ plain_text item @ ''***]('' @ url @ '')''
          @ toInlineMarkdown after)
   \<and> (item_type item = EquationItem expr \<longrightarrow>
        toInlineMarkdown (before @ item # after) =
          toInlineMarkdown before @ ''$'' @ expr @ ''$'' @ toInlineMarkdown after)"
proof -
  have split: "toInlineMarkdown (before @ item # after)
      = toInlineMarkdown before @ toInlineMarkdown_item item @ toInlineMarkdown after"
    by (simp add: toInlineMarkdown_def)
  show ?thesis
    unfolding split
    by (auto simp: toInlineMarkdown_def toInlineMarkdown_item_def Let_def split: option.splits)
qed

theorem toInlineMarkdown_nesting_order_witness:
  "toInlineMarkdown
     [\<lparr>plain_text = ''a '', annotations = unstyled, href = None, item_type = TextItem\<rparr>,
      \<lparr>plain_text = ''text'',
         annotations = \<lparr>bold = True, italic = True, strikethrough = False, underline = False,
                         code = False\<rparr>,
         href = Some ''url'', item_type = TextItem\<rparr>,
      \<lparr>plain_text = ''c'', annotations = unstyled\<lparr>underline := True\<rparr>, href = None,
         item_type = MentionItem\<rparr>]
     = ''a [***text***](url)<u>c</u>''"
proof -
  let ?a = "\<lparr>plain_text = ''a '', annotations = unstyled, href = None, item_type = TextItem\<rparr>"
  let ?b = "\<lparr>plain_text = ''text'',
         annotations = \<lparr>bold = True, italic = True, strikethrough = False, underline = False,
                         code = False\<rparr>,
         href = Some ''url'', item_type = TextItem\<rparr>"
  let ?c = "\<lparr>plain_text = ''c'', annotations = unstyled\<lparr>underline := True\<rparr>, href = None,
         item_type = MentionItem\<rparr>"
  have one: "toInlineMarkdown [?a] = ''a ''"
    using toInlineMarkdown_nesting_order [of ?a "[]" "[]"] by (simp add: unstyled_def)
  have three: "toInlineMarkdown [?c] = ''<u>c</u>''"
    using toInlineMarkdown_nesting_order [of ?c "[]" "[]"] by (simp add: unstyled_def)
  from toInlineMarkdown_nesting_order [of ?b "[?a]" "[?c]" "''url''"] one three
  show ?thesis by simp
qed

text \<open>
  C6 (as amended). A run that is not an expression, with an empty plain text and no link
  target, renders as the empty string exactly when none of the five style annotations is
  set; the code has no check for an empty payload, so a styled empty run renders as its
  empty wrappers.
\<close>

theorem empty_run_renders_empty_iff_unstyled:
  assumes "item_type item = TextItem \<or> item_type item = MentionItem"
    and "plain_text item = []"
    and "href item = None \<or> href item = Some []"
  shows "toInlineMarkdown [item] = [] \<longleftrightarrow>
           \<not> code (annotations item) \<and> \<not> bold (annotations item) \<and> \<not> italic (annotations item)
           \<and> \<not> strikethrough (annotations item) \<and> \<not> underline (annotations item)"
  using assms
  by (auto simp: toInlineMarkdown_single toInlineMarkdown_item_def Let_def
           split: option.splits if_splits)

theorem empty_run_renders_empty_iff_unstyled_witness:
  "toInlineMarkdown [\<lparr>plain_text = [],
       annotations = \<lparr>bold = False, italic = False, strikethrough = False, underline = False,
                       code = False\<rparr>,
       href = None, item_type = TextItem\<rparr>] = []
   \<and> toInlineMarkdown [\<lparr>plain_text = [],
       annotations = \<lparr>bold = False, italic = True, strikethrough = False, underline = False,
                       code = False\<rparr>,
       href = None, item_type = TextItem\<rparr>] \<noteq> []"
  using empty_run_renders_empty_iff_unstyled [of "\<lparr>plain_text = [],
       annotations = \<lparr>bold = False, italic = False, strikethrough = False, underline = False,
                       code = False\<rparr>,
       href = None, item_type = TextItem\<rparr>"]
    empty_run_renders_empty_iff_unstyled [of "\<lparr>plain_text = [],
       annotations = \<lparr>bold = False, italic = True, strikethrough = False, underline = False,
                       code = False\<rparr>,
       href = None, item_type = TextItem\<rparr>"]
  by simp

text \<open>
  The claim as the specification words it fails: an empty bold run with no link renders
  as the empty bold wrapper.
\<close>

theorem empty_bold_run_counterexample:
  "toInlineMarkdown [\<lparr>plain_text = [],
       annotations = \<lparr>bold = True, italic = False, strikethrough = False, underline = False,
                       code = False\<rparr>,
       href = None, item_type = TextItem\<rparr>] = ''****''"
  by (simp add: toInlineMarkdown_def toInlineMarkdown_item_def)

subsection \<open>Sanitizing a title\<close>

lemma collapse_with_word:
  "\<forall>x \<in> set w. \<not> ws x \<Longrightarrow> collapse_with ws sp (w @ r) = w @ collapse_with ws sp r"
  by (induction w) simp_all

lemma collapse_with_Nil_iff: "collapse_with ws sp s = [] \<longleftrightarrow> s = []"
  by (cases s) simp_all

lemma hd_collapse_with:
  "s \<noteq> [] \<Longrightarrow> \<not> ws (hd s) \<Longrightarrow> hd (collapse_with ws sp s) = hd s"
  by (cases s) simp_all

lemma dropWhile_collapse_with:
  assumes "ws sp"
  shows "dropWhile ws (collapse_with ws sp s) = collapse_with ws sp (dropWhile ws s)"
proof (cases s)
  case Nil
  then show ?thesis by simp
next
  case (Cons c cs)
  show ?thesis
  proof (cases "ws c")
    case True
    let ?r = "dropWhile ws cs"
    have "dropWhile ws (collapse_with ws sp ?r) = collapse_with ws sp ?r"
    proof (cases "?r = []")
      case True
      then show ?thesis by (simp del: dropWhile_eq_Nil_conv)
    next
      case False
      then have "\<not> ws (hd ?r)" by (rule hd_dropWhile)
      with False have "\<not> ws (hd (collapse_with ws sp ?r))"
        by (simp add: hd_collapse_with)
      moreover from False have "collapse_with ws sp ?r \<noteq> []"
        by (simp add: collapse_with_Nil_iff del: dropWhile_eq_Nil_conv)
      ultimately show ?thesis by (cases "collapse_with ws sp ?r") simp_all
    qed
    with True Cons assms show ?thesis by simp
  next
    case False
    with Cons show ?thesis by simp
  qed
qed

lemma words_with_dropWhile: "words_with ws (dropWhile ws s) = words_with ws s"
  by (induction s) simp_all

lemma words_with_Nil_iff: "words_with ws s = [] \<longleftrightarrow> (\<forall>x \<in> set s. ws x)"
  by (induction s rule: length_induct) (case_tac xs; simp)

lemma words_with_props:
  "w \<in> set (words_with ws s) \<Longrightarrow> w \<noteq> [] \<and> (\<forall>x \<in> set w. \<not> ws x) \<and> set w \<subseteq> set s"
proof (induction ws s rule: words_with.induct)
  case (1 ws)
  then show ?case by simp
next
  case (2 ws c cs)
  show ?case
  proof (cases "ws c")
    case True
    with 2 show ?thesis by auto
  next
    case False
    from "2.prems" False consider "w = c # takeWhile (\<lambda>x. \<not> ws x) cs"
      | "w \<in> set (words_with ws (dropWhile (\<lambda>x. \<not> ws x) cs))" by auto
    then show ?thesis
    proof cases
      case 1
      with False show ?thesis by (auto dest: set_takeWhileD)
    next
      case 2
      with "2.IH"(2) [OF False] have "w \<noteq> [] \<and> (\<forall>x \<in> set w. \<not> ws x)
          \<and> set w \<subseteq> set (dropWhile (\<lambda>x. \<not> ws x) cs)" by simp
      then show ?thesis by (auto dest: set_dropWhileD)
    qed
  qed
qed

lemma js_join_Cons: "ys \<noteq> [] \<Longrightarrow> js_join sep (x # ys) = x @ sep @ js_join sep ys"
  by (cases ys) simp_all

lemma js_join_ends:
  assumes "wl \<noteq> []" and "\<forall>w \<in> set wl. w \<noteq> []"
  shows "js_join sep wl \<noteq> [] \<and> hd (js_join sep wl) = hd (hd wl)
           \<and> last (js_join sep wl) = last (last wl)"
  using assms
proof (induction sep wl rule: js_join.induct)
  case (1 sep)
  then show ?case by simp
next
  case (2 sep x)
  then show ?case by simp
next
  case (3 sep x y ys)
  from "3.prems" have "\<forall>w \<in> set (y # ys). w \<noteq> []" by simp
  with "3.IH" have ne: "js_join sep (y # ys) \<noteq> []"
    and l: "last (js_join sep (y # ys)) = last (last (y # ys))"
    by simp_all
  from "3.prems" have x: "x \<noteq> []" by simp
  have "last (x @ sep @ js_join sep (y # ys)) = last (js_join sep (y # ys))"
    using ne by simp
  with x l show ?case by simp
qed

lemma set_js_join: "set (js_join sep wl) \<subseteq> set sep \<union> \<Union> (set ` set wl)"
  by (induction sep wl rule: js_join.induct) auto

text \<open>Collapsing a text that does not start with white space.\<close>

lemma collapse_with_words:
  assumes "ws sp" and "s = [] \<or> \<not> ws (hd s)"
  shows "collapse_with ws sp s
           = js_join [sp] (words_with ws s) @ (if s \<noteq> [] \<and> ws (last s) then [sp] else [])"
  using assms(2)
proof (induction s rule: length_induct)
  case (1 s)
  show ?case
  proof (cases s)
    case Nil
    then show ?thesis by simp
  next
    case (Cons c cs)
    with "1.prems" have c: "\<not> ws c" by simp
    define w where "w = c # takeWhile (\<lambda>x. \<not> ws x) cs"
    define r where "r = dropWhile (\<lambda>x. \<not> ws x) cs"
    have s: "s = w @ r" unfolding w_def r_def Cons by simp
    have w: "\<forall>x \<in> set w. \<not> ws x" "w \<noteq> []"
      unfolding w_def using c by (auto dest: set_takeWhileD)
    have words: "words_with ws s = w # words_with ws r"
      unfolding Cons w_def r_def using c by simp
    have coll: "collapse_with ws sp s = w @ collapse_with ws sp r"
      unfolding s using w(1) by (rule collapse_with_word)
    show ?thesis
    proof (cases "r = []")
      case True
      with s w have "\<not> ws (last s)" by simp
      with True words coll Cons show ?thesis by simp
    next
      case False
      then obtain d ds where r_eq: "r = d # ds" by (cases r) auto
      from False have "\<not> \<not> ws (hd r)" unfolding r_def by (rule hd_dropWhile)
      with r_eq have d: "ws d" by simp
      define r' where "r' = dropWhile ws r"
      have len: "length r' < length s"
        unfolding r'_def s using w(2) length_dropWhile_le [of ws r]
        by (cases w) simp_all
      have lead: "r' = [] \<or> \<not> ws (hd r')"
        unfolding r'_def using hd_dropWhile [of ws r] by blast
      from "1.IH" len lead
      have ih: "collapse_with ws sp r'
           = js_join [sp] (words_with ws r') @ (if r' \<noteq> [] \<and> ws (last r') then [sp] else [])"
        by blast
      have coll_r: "collapse_with ws sp r = sp # collapse_with ws sp r'"
        unfolding r_eq r'_def using d by simp
      have words_r: "words_with ws r = words_with ws r'"
        unfolding r'_def by (simp add: words_with_dropWhile)
      have last_s: "last s = last r" unfolding s using False by simp
      show ?thesis
      proof (cases "r' = []")
        case True
        then have all: "\<forall>x \<in> set r. ws x" unfolding r'_def by simp
        with False have "ws (last r)" by simp
        moreover from all have "words_with ws r = []" by (simp add: words_with_Nil_iff)
        ultimately show ?thesis
          using True coll coll_r words last_s Cons by simp
      next
        case nonempty: False
        with lead have "\<not> (\<forall>x \<in> set r'. ws x)" by (cases r') auto
        then have wr: "words_with ws r' \<noteq> []" by (simp add: words_with_Nil_iff)
        have "r = takeWhile ws r @ r'" unfolding r'_def by simp
        with nonempty have "last r = last r'" by (metis last_appendR)
        with last_s have last': "last s = last r'" by simp
        from wr have "js_join [sp] (w # words_with ws r')
            = w @ [sp] @ js_join [sp] (words_with ws r')" by (rule js_join_Cons)
        with coll coll_r ih words words_r last' nonempty Cons show ?thesis by simp
      qed
    qed
  qed
qed

lemma last_word_not_ws:
  assumes "words_with ws s \<noteq> []"
  shows "js_join [sp] (words_with ws s) \<noteq> []
         \<and> \<not> ws (last (js_join [sp] (words_with ws s)))"
proof -
  have all: "\<forall>w \<in> set (words_with ws s). w \<noteq> []" using words_with_props by blast
  from js_join_ends [OF assms all]
  have ne: "js_join [sp] (words_with ws s) \<noteq> []"
    and l: "last (js_join [sp] (words_with ws s)) = last (last (words_with ws s))" by simp_all
  from assms have m: "last (words_with ws s) \<in> set (words_with ws s)" by simp
  from words_with_props [OF m] have "\<not> ws (last (last (words_with ws s)))" by simp
  with ne l show ?thesis by simp
qed

text \<open>Collapsing and trimming leaves the words, separated by one space each.\<close>

lemma trim_collapse_words:
  assumes "ws sp"
  shows "trim_with ws (collapse_with ws sp s) = js_join [sp] (words_with ws s)"
proof -
  define s' where "s' = dropWhile ws s"
  define j where "j = js_join [sp] (words_with ws s)"
  have lead: "s' = [] \<or> \<not> ws (hd s')" unfolding s'_def using hd_dropWhile [of ws s] by blast
  have words: "words_with ws s' = words_with ws s"
    unfolding s'_def by (rule words_with_dropWhile)
  have "dropWhile ws (collapse_with ws sp s) = collapse_with ws sp s'"
    unfolding s'_def using assms by (rule dropWhile_collapse_with)
  also have "\<dots> = j @ (if s' \<noteq> [] \<and> ws (last s') then [sp] else [])"
    unfolding j_def using collapse_with_words [OF assms lead] words by simp
  finally have front: "dropWhile ws (collapse_with ws sp s)
      = j @ (if s' \<noteq> [] \<and> ws (last s') then [sp] else [])" .
  have tail: "dropWhile ws (rev j) = rev j"
  proof (cases "words_with ws s = []")
    case True
    then show ?thesis unfolding j_def by simp
  next
    case False
    from last_word_not_ws [OF False, of sp] have "j \<noteq> []" "\<not> ws (last j)"
      unfolding j_def by simp_all
    then show ?thesis by (cases "rev j") (auto simp: last_rev hd_rev [symmetric])
  qed
  have "dropWhile ws (rev (j @ (if s' \<noteq> [] \<and> ws (last s') then [sp] else []))) = rev j"
    using assms tail by simp
  then show ?thesis unfolding trim_with_def front j_def by simp
qed

lemma unat_of_char: "unat (of_char c :: code_unit) = of_char c"
proof -
  have "(of_char c :: nat) < 65536" using nat_of_char_less_256 [of c] by linarith
  then have "unat (of_nat (of_char c) :: code_unit) = of_char c"
    by (simp add: unat_of_nat)
  then show ?thesis by (simp only: of_nat_of_char)
qed

lemma char_eq_nat: "c = d \<longleftrightarrow> (of_char c :: nat) = of_char d"
  by simp

lemma is_ws_unit_of_char: "is_ws_unit (of_char c) \<longleftrightarrow> is_ws c"
proof -
  define n :: nat where "n = of_char c"
  have lt: "n < 256" unfolding n_def by simp
  have "is_ws_unit (of_char c) \<longleftrightarrow>
      n = 9 \<or> n = 10 \<or> n = 11 \<or> n = 12 \<or> n = 13 \<or> n = 32 \<or> n = 160 \<or> n = 5760
      \<or> (8192 \<le> n \<and> n \<le> 8202) \<or> n = 8232 \<or> n = 8233 \<or> n = 8239 \<or> n = 8287
      \<or> n = 12288 \<or> n = 65279"
    unfolding is_ws_unit_def n_def
    by (simp add: word_unat_eq_iff word_le_nat_alt unat_of_char)
  also have "\<dots> \<longleftrightarrow> n = 9 \<or> n = 10 \<or> n = 11 \<or> n = 12 \<or> n = 13 \<or> n = 32 \<or> n = 160"
    using lt by arith
  also have "\<dots> \<longleftrightarrow> is_ws c"
    unfolding is_ws_def n_def by (simp add: char_eq_nat)
  finally show ?thesis .
qed

lemma unsafe_unit_of_char: "unsafe_unit (of_char c) \<longleftrightarrow> unsafe_char c"
  unfolding unsafe_unit_def unsafe_char_def DQUOTE_def BACKSLASH_def
  by (simp add: word_unat_eq_iff word_le_nat_alt unat_of_char char_eq_nat)

lemma collapse_ws_eq: "collapse_ws s = collapse_with is_ws (CHR '' '') s"
  by (induction s rule: collapse_ws.induct) simp_all

lemma js_trim_eq: "js_trim s = trim_with is_ws s"
  by (simp add: js_trim_def trim_with_def)

lemma dropWhile_map_agree:
  "(\<And>c. ws' (f c) = ws c) \<Longrightarrow> dropWhile ws' (map f s) = map f (dropWhile ws s)"
  by (induction s) simp_all

lemma collapse_with_map:
  assumes "\<And>c. ws' (f c) = ws c"
  shows "collapse_with ws' (f sp) (map f s) = map f (collapse_with ws sp s)"
proof (induction s rule: length_induct)
  case (1 s)
  show ?case
  proof (cases s)
    case Nil
    then show ?thesis by simp
  next
    case (Cons c cs)
    show ?thesis
    proof (cases "ws c")
      case True
      have "length (dropWhile ws cs) < length s"
        unfolding Cons using length_dropWhile_le [of ws cs] by simp
      with "1.IH" have "collapse_with ws' (f sp) (map f (dropWhile ws cs))
          = map f (collapse_with ws sp (dropWhile ws cs))" by blast
      with True Cons assms show ?thesis
        by (simp add: dropWhile_map_agree [of ws' f ws])
    next
      case False
      from "1.IH" Cons have "collapse_with ws' (f sp) (map f cs) = map f (collapse_with ws sp cs)"
        by simp
      with False Cons assms show ?thesis by simp
    qed
  qed
qed

lemma trim_with_map:
  assumes "\<And>c. ws' (f c) = ws c"
  shows "trim_with ws' (map f s) = map f (trim_with ws s)"
proof -
  note dw = dropWhile_map_agree [of ws' f ws, OF assms]
  have "dropWhile ws' (rev (dropWhile ws' (map f s)))
      = dropWhile ws' (map f (rev (dropWhile ws s)))"
    by (simp only: dw rev_map)
  also have "\<dots> = map f (dropWhile ws (rev (dropWhile ws s)))" by (rule dw)
  finally show ?thesis unfolding trim_with_def by (simp only: rev_map)
qed

lemma sanitizeFileName_utf16_of_string:
  "sanitizeFileName_utf16 (utf16 title) = utf16 (sanitizeFileName title)"
proof -
  have sp: "(of_char (CHR '' '') :: code_unit) = 0x20" and hy: "(of_char (CHR ''-'') :: code_unit) = 0x2D"
    by simp_all
  have "map (\<lambda>u. if unsafe_unit u then 0x2D else u) (map of_char title)
      = map of_char (map (\<lambda>c. if unsafe_char c then CHR ''-'' else c) title)"
    by (simp add: unsafe_unit_of_char)
  then show ?thesis
    unfolding sanitizeFileName_utf16_def sanitizeFileName_def utf16_def collapse_ws_eq js_trim_eq
    by (simp only: sp [symmetric] collapse_with_map [of is_ws_unit of_char is_ws, OF is_ws_unit_of_char]
          trim_with_map [of is_ws_unit of_char is_ws, OF is_ws_unit_of_char] take_map)
qed

lemma is_ws_unit_space: "is_ws_unit 0x20"
  by (simp add: is_ws_unit_def)

lemma sanitizeFileName_utf16_words:
  "sanitizeFileName_utf16 name
     = take 180 (js_join [0x20]
         (words_with is_ws_unit (map (\<lambda>u. if unsafe_unit u then 0x2D else u) name)))"
  unfolding sanitizeFileName_utf16_def
  by (simp only: trim_collapse_words [of is_ws_unit "0x20", OF is_ws_unit_space])

lemma sanitizeFileName_utf16_units:
  assumes "u \<in> set (sanitizeFileName_utf16 name)"
  shows "\<not> unsafe_unit u" and "is_ws_unit u \<Longrightarrow> u = 0x20"
proof -
  let ?m = "map (\<lambda>u. if unsafe_unit u then 0x2D else u) name"
  from assms have "u \<in> set (js_join [0x20] (words_with is_ws_unit ?m))"
    unfolding sanitizeFileName_utf16_words by (rule in_set_takeD)
  with set_js_join [of "[0x20]" "words_with is_ws_unit ?m"]
  consider "u = 0x20" | w where "w \<in> set (words_with is_ws_unit ?m)" "u \<in> set w"
    by auto
  then have "u = 0x20 \<or> (\<not> is_ws_unit u \<and> u \<in> set ?m)"
  proof cases
    case 1
    then show ?thesis by simp
  next
    case 2
    with words_with_props [OF 2(1)] show ?thesis by auto
  qed
  then show "is_ws_unit u \<Longrightarrow> u = 0x20" by blast
  have safe: "\<not> unsafe_unit (if unsafe_unit v then 0x2D else v)" for v
    by (simp add: unsafe_unit_def)
  from \<open>u = 0x20 \<or> (\<not> is_ws_unit u \<and> u \<in> set ?m)\<close> show "\<not> unsafe_unit u"
  proof
    assume "u = 0x20"
    then show ?thesis by (simp add: unsafe_unit_def)
  next
    assume "\<not> is_ws_unit u \<and> u \<in> set ?m"
    then obtain v where "u = (if unsafe_unit v then 0x2D else v)"
      unfolding set_map by (elim conjE imageE)
    then show ?thesis using safe [of v] by simp
  qed
qed

text \<open>
  C8 (as amended). \<open>sanitizeFileName\<close> replaces each of the characters \<open><>:"/\|?*\<close> and
  each code unit from \<open>0x00\<close> to \<open>0x1F\<close> by a hyphen, then collapses each run of white
  space to one space, then trims both ends, then keeps at most 180 code units: the result
  is the first 180 code units of the words of the replaced title joined by single spaces.
  The other control characters, \<open>0x7F\<close> and \<open>0x80\<close> to \<open>0x9F\<close>, are kept. The title
  \<open>My/Note:<Test>*\<close> becomes \<open>My-Note--Test--\<close>. For every title, of any code units, the
  result holds none of the replaced characters, its only white space is the space, and it
  is at most 180 code units long. On the titles of the 8-bit model the function is the
  \<open>sanitizeFileName\<close> that the export uses.
\<close>

theorem sanitizeFileName_spec:
  "sanitizeFileName_utf16 name
     = take 180 (js_join [0x20]
         (words_with is_ws_unit (map (\<lambda>u. if unsafe_unit u then 0x2D else u) name)))
   \<and> sanitizeFileName_utf16 (utf16 ''My/Note:<Test>*'') = utf16 ''My-Note--Test--''
   \<and> (\<forall>u \<in> set (sanitizeFileName_utf16 name).
         u \<notin> set (utf16 ''<>:/|?*'') \<and> u \<noteq> 0x22 \<and> u \<noteq> 0x5C \<and> \<not> u \<le> 0x1F
         \<and> (is_ws_unit u \<longrightarrow> u = 0x20))
   \<and> length (sanitizeFileName_utf16 name) \<le> 180
   \<and> sanitizeFileName_utf16 (utf16 title) = utf16 (sanitizeFileName title)"
proof (intro conjI)
  show "sanitizeFileName_utf16 name
     = take 180 (js_join [0x20]
         (words_with is_ws_unit (map (\<lambda>u. if unsafe_unit u then 0x2D else u) name)))"
    by (rule sanitizeFileName_utf16_words)
  show "sanitizeFileName_utf16 (utf16 ''My/Note:<Test>*'') = utf16 ''My-Note--Test--''"
    by (simp add: sanitizeFileName_utf16_def utf16_def unsafe_unit_def is_ws_unit_def trim_with_def)
  show "\<forall>u \<in> set (sanitizeFileName_utf16 name).
         u \<notin> set (utf16 ''<>:/|?*'') \<and> u \<noteq> 0x22 \<and> u \<noteq> 0x5C \<and> \<not> u \<le> 0x1F
         \<and> (is_ws_unit u \<longrightarrow> u = 0x20)"
  proof
    fix u assume u: "u \<in> set (sanitizeFileName_utf16 name)"
    from sanitizeFileName_utf16_units(1) [OF u] sanitizeFileName_utf16_units(2) [OF u]
    show "u \<notin> set (utf16 ''<>:/|?*'') \<and> u \<noteq> 0x22 \<and> u \<noteq> 0x5C \<and> \<not> u \<le> 0x1F
         \<and> (is_ws_unit u \<longrightarrow> u = 0x20)"
      by (auto simp: unsafe_unit_def utf16_def)
  qed
  show "length (sanitizeFileName_utf16 name) \<le> 180"
    by (simp add: sanitizeFileName_utf16_def)
  show "sanitizeFileName_utf16 (utf16 title) = utf16 (sanitizeFileName title)"
    by (rule sanitizeFileName_utf16_of_string)
qed

theorem sanitizeFileName_spec_witness:
  "sanitizeFileName_utf16 [0x20, 0x61, 0x3C, 0x62, 0x3000, 0x2003, 0x63, 0x09, 0x20]
     = [0x61, 0x2D, 0x62, 0x20, 0x63, 0x2D]
   \<and> 0x2D \<in> set (sanitizeFileName_utf16
                    [0x20, 0x61, 0x3C, 0x62, 0x3000, 0x2003, 0x63, 0x09, 0x20])
   \<and> 0x2D \<notin> set (utf16 ''<>:/|?*'') \<and> \<not> (0x2D :: code_unit) \<le> 0x1F
   \<and> words_with is_ws_unit [0x20, 0x61, 0x2D, 0x62, 0x3000, 0x2003, 0x63, 0x2D, 0x20]
       = [[0x61, 0x2D, 0x62], [0x63, 0x2D]]
   \<and> length (sanitizeFileName_utf16
                [0x20, 0x61, 0x3C, 0x62, 0x3000, 0x2003, 0x63, 0x09, 0x20]) \<le> 180"
proof -
  let ?name = "[0x20, 0x61, 0x3C, 0x62, 0x3000, 0x2003, 0x63, 0x09, 0x20] :: code_unit list"
  have w: "words_with is_ws_unit [0x20, 0x61, 0x2D, 0x62, 0x3000, 0x2003, 0x63, 0x2D, 0x20]
       = [[0x61, 0x2D, 0x62], [0x63, 0x2D]]"
    by (simp add: is_ws_unit_def)
  have m: "map (\<lambda>u. if unsafe_unit u then 0x2D else u) ?name
       = [0x20, 0x61, 0x2D, 0x62, 0x3000, 0x2003, 0x63, 0x2D, 0x20]"
    by (simp add: unsafe_unit_def)
  from sanitizeFileName_spec [of ?name]
  have e: "sanitizeFileName_utf16 ?name = [0x61, 0x2D, 0x62, 0x20, 0x63, 0x2D]"
    unfolding m w by simp
  then have i: "0x2D \<in> set (sanitizeFileName_utf16 ?name)" by simp
  from sanitizeFileName_spec [of ?name] i e w show ?thesis by blast
qed

text \<open>
  The claim as the specification words it fails for a control character outside the range
  of the regular expression: the delete character \<open>0x7F\<close> is kept.
\<close>

theorem delete_character_counterexample:
  "sanitizeFileName_utf16 [0x61, 0x7F, 0x62] = [0x61, 0x7F, 0x62]
   \<and> sanitizeFileName [CHR ''a'', CHR 0x7F, CHR ''b''] = [CHR ''a'', CHR 0x7F, CHR ''b'']"
  by (simp add: sanitizeFileName_utf16_def unsafe_unit_def is_ws_unit_def trim_with_def
      sanitizeFileName_def unsafe_char_def js_trim_def is_ws_def DQUOTE_def BACKSLASH_def)

subsection \<open>Rendering blocks\<close>

lemma await_simps [simp]:
  "await None k = None"
  "await (Some (Inl e)) k = Some (Inl e)"
  "await (Some (Inr v)) k = k v"
  "await (resolved v) k = k v"
  "await (rejected e) k = rejected e"
  by (simp_all add: await_def resolved_def rejected_def)

lemma await_resolved_iff:
  "await p k = Some (Inr w) \<longleftrightarrow> (\<exists>v. p = Some (Inr v) \<and> k v = Some (Inr w))"
  by (auto simp: await_def split: option.splits sum.splits)

lemma resolved_eq [simp]: "resolved v = Some (Inr w) \<longleftrightarrow> v = w"
  by (simp add: resolved_def)

lemma stringifyBlock_no_children:
  "\<not> has_children b \<Longrightarrow>
     stringifyBlock (Suc fuel) notion b depth
       = Some (Inr (stringifyBlock_dispatch (content b) depth []))"
  by (simp add: resolved_def)

lemma stringifyBlock_resolvedD:
  assumes "stringifyBlock (Suc fuel) notion b depth = Some (Inr out)"
  shows "\<exists>nested nestedMarkdown.
           (if has_children b then outcome (fetchBlocksRecursively notion (id_block b))
            else Some (Inr [])) = Some (Inr nested)
           \<and> (nested = [] \<longrightarrow> nestedMarkdown = [])
           \<and> (nested \<noteq> [] \<longrightarrow>
                (\<exists>rendered. stringifyBlocks fuel notion nested (Suc depth) = Some (Inr rendered)
                   \<and> nestedMarkdown = LF # rendered))
           \<and> out = stringifyBlock_dispatch (content b) depth nestedMarkdown"
  using assms
  by (auto simp: await_resolved_iff resolved_def split: if_splits)

lemma promise_all_resolvedD:
  "promise_all ps = Some (Inr vs) \<Longrightarrow> ps = map (\<lambda>v. Some (Inr v)) vs"
  by (induction ps arbitrary: vs) (auto split: option.splits sum.splits)

lemma leading_spaces_indent: "leading_spaces (indent d @ rest) = 2 * d + leading_spaces rest"
  by (induction d) (simp_all add: leading_spaces_def indent_def)

lemma take_indent: "take (2 * d) (indent d @ rest) = replicate (2 * d) (CHR '' '')"
  by (induction d) (simp_all add: indent_def)

lemma leading_spaces_Cons [simp]:
  "leading_spaces (c # cs) = (if c = CHR '' '' then Suc (leading_spaces cs) else 0)"
  by (simp add: leading_spaces_def)

lemma leading_spaces_Nil [simp]: "leading_spaces [] = 0"
  by (simp add: leading_spaces_def)

lemma dispatch_indent:
  assumes "stringifyBlock_dispatch c d nm \<noteq> []"
  shows "\<exists>rest. stringifyBlock_dispatch c d nm = indent d @ rest"
  using assms by (cases c) (auto simp: Let_def)

lemma dispatch_leading_spaces:
  assumes "stringifyBlock_dispatch c d nm \<noteq> []" and "\<forall>rt. c \<noteq> Paragraph rt"
  shows "leading_spaces (stringifyBlock_dispatch c d nm) = 2 * d"
  using assms
  by (cases c) (auto simp: Let_def leading_spaces_indent BACKTICK_def)

lemma leading_spaces_append_LF:
  "nm = [] \<or> (\<exists>r. nm = LF # r) \<Longrightarrow> leading_spaces (t @ nm) = leading_spaces t"
  by (induction t) (auto simp: LF_def)

lemma dispatch_paragraph_leading_spaces:
  assumes "stringifyBlock_dispatch (Paragraph rt) d nm \<noteq> []" and "nm = [] \<or> (\<exists>r. nm = LF # r)"
  shows "leading_spaces (stringifyBlock_dispatch (Paragraph rt) d nm)
           = 2 * d + leading_spaces (toInlineMarkdown rt)"
  using assms
  by (auto simp: Let_def leading_spaces_indent leading_spaces_append_LF split: if_splits)


lemma dispatch_children:
  "stringifyBlock_dispatch c d nm
     = stringifyBlock_dispatch c d [] @ (if takes_children c then nm else [])"
  by (cases c) (simp_all add: Let_def)

lemma normalizeText_leading_spaces: "leading_spaces (normalizeText s) = leading_spaces s"
  by (induction s rule: normalizeText.induct) (auto simp: CR_def LF_def)

lemma normalizeText_spaces: "normalizeText (replicate n (CHR '' '') @ t) = replicate n (CHR '' '') @ normalizeText t"
proof (induction n)
  case 0
  show ?case by simp
next
  case (Suc n)
  show ?case
  proof (cases "replicate n (CHR '' '') @ t")
    case Nil
    then show ?thesis by simp
  next
    case (Cons x xs)
    with Suc show ?thesis by (simp add: CR_def)
  qed
qed

lemma normalizeText_take_spaces:
  assumes "take n s = replicate n (CHR '' '')"
  shows "take n (normalizeText s) = replicate n (CHR '' '')"
proof -
  from assms have "length (take n s) = n" by simp
  then have "n \<le> length s" by simp
  with assms have "s = replicate n (CHR '' '') @ drop n s"
    by (metis append_take_drop_id)
  then have "normalizeText s = replicate n (CHR '' '') @ normalizeText (drop n s)"
    using normalizeText_spaces by metis
  then show ?thesis by simp
qed

text \<open>
  C9 (as amended). A block rendered at depth \<open>d\<close> with a non-empty output starts with the
  \<open>2 * d\<close> spaces of \<open>indent d\<close>. For every kind but a paragraph the next character is
  not a space, so the leading indentation of the block's own line is exactly \<open>2 * d\<close>; a
  paragraph's composed text follows the indent directly, so its line starts with \<open>2 * d\<close>
  spaces plus the leading spaces of that text. Every direct child is rendered at depth
  \<open>d + 1\<close>: the output of a block with children is its own line and, for the kinds that
  keep their children, a newline and the non-blank renderings of the children at depth
  \<open>d + 1\<close>, joined by blank lines; each of these starts with \<open>2 * (d + 1)\<close> spaces, and
  with exactly that many when the child is not a paragraph.
\<close>

theorem indentation_by_depth:
  assumes "stringifyBlock (Suc fuel) notion b d = Some (Inr out)" and "out \<noteq> []"
  shows "take (2 * d) out = replicate (2 * d) (CHR '' '')
     \<and> ((\<forall>rt. content b \<noteq> Paragraph rt) \<longrightarrow> leading_spaces out = 2 * d)
     \<and> (\<forall>rt. content b = Paragraph rt \<longrightarrow>
           leading_spaces out = 2 * d + leading_spaces (toInlineMarkdown rt))
     \<and> (\<not> has_children b \<longrightarrow> out = stringifyBlock_dispatch (content b) d [])
     \<and> (\<forall>nested.
           has_children b
           \<and> outcome (fetchBlocksRecursively notion (id_block b)) = Some (Inr nested)
           \<and> nested \<noteq> [] \<longrightarrow>
           (\<exists>rs. length rs = length nested
              \<and> (\<forall>i<length nested.
                    stringifyBlock fuel notion (nested ! i) (Suc d) = Some (Inr (rs ! i))
                    \<and> (rs ! i \<noteq> [] \<longrightarrow>
                         take (2 * Suc d) (normalizeText (rs ! i))
                           = replicate (2 * Suc d) (CHR '' '')
                         \<and> ((\<forall>rt. content (nested ! i) \<noteq> Paragraph rt) \<longrightarrow>
                               leading_spaces (normalizeText (rs ! i)) = 2 * Suc d)))
              \<and> out = stringifyBlock_dispatch (content b) d []
                       @ (if takes_children (content b)
                          then LF # js_join [LF, LF]
                                 (filter (\<lambda>line. js_trim line \<noteq> []) (map normalizeText rs))
                          else [])))
     \<and> (has_children b
         \<and> outcome (fetchBlocksRecursively notion (id_block b)) = Some (Inr []) \<longrightarrow>
         out = stringifyBlock_dispatch (content b) d [])"
proof -
  have own: "take (2 * k) o' = replicate (2 * k) (CHR '' '')
     \<and> ((\<forall>rt. content c \<noteq> Paragraph rt) \<longrightarrow> leading_spaces o' = 2 * k)
     \<and> (\<forall>rt. content c = Paragraph rt \<longrightarrow>
           leading_spaces o' = 2 * k + leading_spaces (toInlineMarkdown rt))"
    if r: "stringifyBlock (Suc f) notion c k = Some (Inr o')" and ne: "o' \<noteq> []" for f c k o'
  proof -
    from stringifyBlock_resolvedD [OF r] obtain nm where
      nm: "nm = [] \<or> (\<exists>r. nm = LF # r)" and o': "o' = stringifyBlock_dispatch (content c) k nm"
      by (metis neq_Nil_conv)
    from ne o' have d_ne: "stringifyBlock_dispatch (content c) k nm \<noteq> []" by simp
    from dispatch_indent [OF d_ne] obtain rest where "o' = indent k @ rest"
      unfolding o' by blast
    then have "take (2 * k) o' = replicate (2 * k) (CHR '' '')"
      by (simp only: take_indent)
    moreover have "(\<forall>rt. content c \<noteq> Paragraph rt) \<longrightarrow> leading_spaces o' = 2 * k"
      unfolding o' using dispatch_leading_spaces [OF d_ne] by blast
    moreover have "\<forall>rt. content c = Paragraph rt \<longrightarrow>
           leading_spaces o' = 2 * k + leading_spaces (toInlineMarkdown rt)"
      unfolding o' using dispatch_paragraph_leading_spaces [OF _ nm] d_ne by auto
    ultimately show ?thesis by blast
  qed
  have leaf: "out = stringifyBlock_dispatch (content b) d []" if "\<not> has_children b"
    using assms(1) that by (simp add: stringifyBlock_no_children)
  have kids: "\<exists>rs. length rs = length nested
              \<and> (\<forall>i<length nested.
                    stringifyBlock fuel notion (nested ! i) (Suc d) = Some (Inr (rs ! i))
                    \<and> (rs ! i \<noteq> [] \<longrightarrow>
                         take (2 * Suc d) (normalizeText (rs ! i))
                           = replicate (2 * Suc d) (CHR '' '')
                         \<and> ((\<forall>rt. content (nested ! i) \<noteq> Paragraph rt) \<longrightarrow>
                               leading_spaces (normalizeText (rs ! i)) = 2 * Suc d)))
              \<and> out = stringifyBlock_dispatch (content b) d []
                       @ (if takes_children (content b)
                          then LF # js_join [LF, LF]
                                 (filter (\<lambda>line. js_trim line \<noteq> []) (map normalizeText rs))
                          else [])"
    if hc: "has_children b"
      and fetched: "outcome (fetchBlocksRecursively notion (id_block b)) = Some (Inr nested)"
      and nn: "nested \<noteq> []" for nested
  proof -
    from stringifyBlock_resolvedD [OF assms(1)] hc fetched nn
    obtain rendered where
      rendered: "stringifyBlocks fuel notion nested (Suc d) = Some (Inr rendered)"
      and out: "out = stringifyBlock_dispatch (content b) d (LF # rendered)"
      by auto
    from rendered obtain rs where
      all: "promise_all (map (\<lambda>block. stringifyBlock fuel notion block (Suc d)) nested)
              = Some (Inr rs)"
      and joined: "rendered = js_join [LF, LF]
                     (filter (\<lambda>line. js_trim line \<noteq> []) (map normalizeText rs))"
      by (auto simp: await_resolved_iff)
    from promise_all_resolvedD [OF all]
    have maps: "map (\<lambda>block. stringifyBlock fuel notion block (Suc d)) nested
                  = map (\<lambda>v. Some (Inr v)) rs" .
    then have len: "length rs = length nested" by (metis length_map)
    have each: "stringifyBlock fuel notion (nested ! i) (Suc d) = Some (Inr (rs ! i))"
      if "i < length nested" for i
      using maps that len by (metis nth_map)
    have props: "rs ! i \<noteq> [] \<longrightarrow>
           take (2 * Suc d) (normalizeText (rs ! i)) = replicate (2 * Suc d) (CHR '' '')
           \<and> ((\<forall>rt. content (nested ! i) \<noteq> Paragraph rt) \<longrightarrow>
                 leading_spaces (normalizeText (rs ! i)) = 2 * Suc d)"
      if i: "i < length nested" for i
    proof
      assume ne: "rs ! i \<noteq> []"
      from each [OF i] obtain f where f: "fuel = Suc f" by (cases fuel) auto
      from own [OF each [OF i, unfolded f] ne]
      show "take (2 * Suc d) (normalizeText (rs ! i)) = replicate (2 * Suc d) (CHR '' '')
           \<and> ((\<forall>rt. content (nested ! i) \<noteq> Paragraph rt) \<longrightarrow>
                 leading_spaces (normalizeText (rs ! i)) = 2 * Suc d)"
        by (simp add: normalizeText_take_spaces normalizeText_leading_spaces)
    qed
    from out joined have "out = stringifyBlock_dispatch (content b) d []
                       @ (if takes_children (content b)
                          then LF # js_join [LF, LF]
                                 (filter (\<lambda>line. js_trim line \<noteq> []) (map normalizeText rs))
                          else [])"
      using dispatch_children [of "content b" d "LF # rendered"] by simp
    with len each props show ?thesis by blast
  qed
  have childless: "out = stringifyBlock_dispatch (content b) d []"
    if "has_children b"
      and "outcome (fetchBlocksRecursively notion (id_block b)) = Some (Inr [])"
    using stringifyBlock_resolvedD [OF assms(1)] that by auto
  from own [OF assms] leaf kids childless show ?thesis by blast
qed

lemmas eval_defs = fetchBlocksRecursively_def fetchPage_blocks.simps fetchPage_pages.simps
  fetchAllPages_def outcome_def resolved_def rejected_def last_page_def text_run_def unstyled_def
  toInlineMarkdown_def toInlineMarkdown_item_def indent_def LF_def CR_def BACKTICK_def
  js_trim_def is_ws_def Let_def

theorem indentation_by_depth_witness:
  "stringifyBlock (Suc (Suc 0)) outline
      \<lparr>id_block = ''parent'', has_children = True, content = Toggle []\<rparr> 1
     = Some (Inr ''  - \<newline>    x'')
   \<and> leading_spaces ''  - \<newline>    x'' = 2
   \<and> stringifyBlock (Suc 0) outline
        \<lparr>id_block = ''child'', has_children = False,
          content = Paragraph [text_run ''x'' unstyled]\<rparr> 2 = Some (Inr ''    x'')
   \<and> (\<exists>rs. length rs = 1
          \<and> stringifyBlock (Suc 0) outline
               \<lparr>id_block = ''child'', has_children = False,
                 content = Paragraph [text_run ''x'' unstyled]\<rparr> 2 = Some (Inr (rs ! 0))
          \<and> ''  - \<newline>    x'' = ''  - '' @ LF # js_join [LF, LF]
                 (filter (\<lambda>line. js_trim line \<noteq> []) (map normalizeText rs)))"
proof -
  let ?parent = "\<lparr>id_block = ''parent'', has_children = True, content = Toggle []\<rparr>"
  let ?child = "\<lparr>id_block = ''child'', has_children = False,
                  content = Paragraph [text_run ''x'' unstyled]\<rparr>"
  have run: "stringifyBlock (Suc (Suc 0)) outline ?parent 1 = Some (Inr ''  - \<newline>    x'')"
    by (simp add: eval_defs outline_def)
  have kids: "outcome (fetchBlocksRecursively outline (id_block ?parent)) = Some (Inr [?child])"
    by (simp add: eval_defs outline_def)
  have sub: "stringifyBlock (Suc 0) outline ?child 2 = Some (Inr ''    x'')"
    by (simp add: eval_defs eval_nat_numeral)
  have ne: "''  - \<newline>    x'' \<noteq> []" by simp
  note facts = indentation_by_depth [OF run ne]
  from facts have lead: "leading_spaces ''  - \<newline>    x'' = 2" by simp
  have head: "stringifyBlock_dispatch (content ?parent) 1 [] = ''  - ''"
    by (simp add: eval_defs)
  have two: "Suc 1 = (2::nat)" by simp
  from facts [THEN conjunct2, THEN conjunct2, THEN conjunct2, THEN conjunct2, THEN conjunct1,
      rule_format, of "[?child]"] kids
  obtain rs where rs: "length rs = length [?child]"
    and each: "\<forall>i<length [?child]. stringifyBlock (Suc 0) outline ([?child] ! i) (Suc 1)
                 = Some (Inr (rs ! i))"
    and out: "''  - \<newline>    x'' = stringifyBlock_dispatch (content ?parent) 1 []
                @ (if takes_children (content ?parent)
                   then LF # js_join [LF, LF]
                          (filter (\<lambda>line. js_trim line \<noteq> []) (map normalizeText rs))
                   else [])"
    by auto
  from each have "stringifyBlock (Suc 0) outline ?child 2 = Some (Inr (rs ! 0))"
    unfolding two by simp
  moreover from out have "''  - \<newline>    x'' = ''  - '' @ LF # js_join [LF, LF]
                 (filter (\<lambda>line. js_trim line \<noteq> []) (map normalizeText rs))"
    unfolding head by simp
  moreover from rs have "length rs = 1" by simp
  ultimately show ?thesis using run lead sub by blast
qed

text \<open>
  The claim as the specification words it fails for a paragraph whose text starts with a
  space: at depth 0 its line has one leading space, not none.
\<close>

theorem indentation_by_depth_counterexample:
  "stringifyBlock (Suc 0) offline
      \<lparr>id_block = ''p'', has_children = False,
        content = Paragraph [text_run '' x'' unstyled]\<rparr> 0 = Some (Inr '' x'')
   \<and> leading_spaces '' x'' \<noteq> 2 * 0"
  by (simp add: eval_defs)

subsection \<open>Paragraphs\<close>

lemma paragraph_empty_text:
  assumes "content b = Paragraph rt" and "toInlineMarkdown rt = []"
    and "stringifyBlock fuel notion b depth = Some (Inr out)"
  shows "out = []"
proof (cases fuel)
  case 0
  with assms(3) show ?thesis by simp
next
  case (Suc f)
  from stringifyBlock_resolvedD [OF assms(3) [unfolded Suc]] assms(1,2) show ?thesis
    by auto
qed

text \<open>
  C3. The claim: a paragraph is omitted only when its composed text is empty and it has no
  children. The code returns the empty string whenever the composed text is empty: in the
  workspace \<open>outline\<close> the paragraph \<open>parent\<close> with no text and the child \<open>x\<close> renders as
  the empty string, while the same block as a toggle keeps its child.
\<close>

theorem empty_paragraph_drops_children:
  "stringifyBlock (Suc (Suc fuel)) outline
      \<lparr>id_block = ''parent'', has_children = True, content = Paragraph []\<rparr> 0 = Some (Inr [])
   \<and> stringifyBlock (Suc (Suc fuel)) outline
      \<lparr>id_block = ''parent'', has_children = True, content = Toggle []\<rparr> 0
       = Some (Inr ''- \<newline>  x'')"
  by (simp add: eval_defs outline_def)

subsection \<open>File and document blocks\<close>

text \<open>
  C7 (as amended). A file block renders as \<open>[label](U)\<close>, where \<open>U\<close> is the URL of its
  file object (the external URL of an external one, the hosted URL otherwise) and the
  label is the composed caption when that is non-empty, else \<open>file\<close>. A pdf block renders
  as \<open>[pdf](U)\<close>: its label is the literal \<open>pdf\<close> and its caption is not used.
\<close>

theorem file_and_pdf_blocks_render_links:
  "(content b = File f cap \<longrightarrow>
      (\<not> has_children b \<longrightarrow>
         stringifyBlock (Suc fuel) notion b depth
           = Some (Inr (indent depth @ ''[''
                @ (if toInlineMarkdown cap \<noteq> [] then toInlineMarkdown cap else ''file'')
                @ '']('' @ file_url f @ '')'')))
      \<and> (\<forall>out. stringifyBlock (Suc fuel) notion b depth = Some (Inr out) \<longrightarrow>
            out = indent depth @ ''[''
                @ (if toInlineMarkdown cap \<noteq> [] then toInlineMarkdown cap else ''file'')
                @ '']('' @ file_url f @ '')''))
   \<and> (content b = Pdf f cap \<longrightarrow>
      (\<not> has_children b \<longrightarrow>
         stringifyBlock (Suc fuel) notion b depth
           = Some (Inr (indent depth @ ''[pdf]('' @ file_url f @ '')'')))
      \<and> (\<forall>out. stringifyBlock (Suc fuel) notion b depth = Some (Inr out) \<longrightarrow>
            out = indent depth @ ''[pdf]('' @ file_url f @ '')''))
   \<and> file_url (External u) = u \<and> file_url (Hosted u) = u"
proof -
  have "out = stringifyBlock_dispatch (content b) depth []"
    if "stringifyBlock (Suc fuel) notion b depth = Some (Inr out)"
      and "(\<exists>f cap. content b = File f cap) \<or> (\<exists>f cap. content b = Pdf f cap)" for out
    using stringifyBlock_resolvedD [OF that(1)] that(2) by (auto simp: Let_def)
  then show ?thesis
    by (auto simp: stringifyBlock_no_children Let_def)
qed

theorem file_and_pdf_blocks_render_links_witness:
  "stringifyBlock (Suc 0) offline
      \<lparr>id_block = ''f'', has_children = False,
        content = File (Hosted ''https://files/r.txt'') [text_run ''Report'' unstyled]\<rparr> 1
     = Some (Inr ''  [Report](https://files/r.txt)'')
   \<and> stringifyBlock (Suc 0) offline
      \<lparr>id_block = ''f'', has_children = False,
        content = File (External ''https://files/r.txt'') []\<rparr> 0
     = Some (Inr ''[file](https://files/r.txt)'')"
  using file_and_pdf_blocks_render_links [of
      "\<lparr>id_block = ''f'', has_children = False,
        content = File (Hosted ''https://files/r.txt'') [text_run ''Report'' unstyled]\<rparr>"
      "Hosted ''https://files/r.txt''" "[text_run ''Report'' unstyled]" 0 offline 1]
    file_and_pdf_blocks_render_links [of
      "\<lparr>id_block = ''f'', has_children = False,
        content = File (External ''https://files/r.txt'') []\<rparr>"
      "External ''https://files/r.txt''" "[]" 0 offline 0]
  by (simp add: toInlineMarkdown_def toInlineMarkdown_item_def text_run_def unstyled_def
      indent_def)

text \<open>
  The claim as the specification words it fails for a pdf block with a caption: the label
  is \<open>pdf\<close>, not the caption.
\<close>

theorem pdf_caption_counterexample:
  "stringifyBlock (Suc 0) offline
      \<lparr>id_block = ''m'', has_children = False,
        content = Pdf (External ''https://files/m.pdf'') [text_run ''Manual'' unstyled]\<rparr> 0
     = Some (Inr ''[pdf](https://files/m.pdf)'')
   \<and> ''[pdf](https://files/m.pdf)'' \<noteq> ''[Manual](https://files/m.pdf)''"
  by (simp add: eval_defs)

subsection \<open>The end-to-end scenario\<close>

lemmas run_defs = run_def journal_def trip_def packed_bags_def buy_tickets_def exportJobs_def
  exportPage_def getTitle_def sanitizeFileName_def unsafe_char_def DQUOTE_def BACKSLASH_def
  ensureUniqueFileName_def formatDate_def

text \<open>
  C5 (as amended). For the page titled \<open>Trip\<close> created at \<open>2024-03-01T10:00:00.000Z\<close> whose
  block tree is the bold paragraph \<open>Packed bags\<close> with the unchecked to-do \<open>Buy tickets\<close>
  nested under it, the exported content is the front matter with the first ten characters
  of the creation time, then the paragraph, then the to-do on the next line indented by
  two spaces, then a newline. The text with a blank line and no indentation is the export
  of the tree where the to-do is a top-level block after the paragraph.
\<close>

theorem trip_export:
  "run (Suc (Suc fuel)) trip_nested ''journal-db''
     = Some (Inr [(''Trip.md'',
         ''---\<newline>Written: 2024-03-01\<newline>---\<newline>\<newline>**Packed bags**\<newline>  - [ ] Buy tickets\<newline>'')])
   \<and> run (Suc fuel) trip_flat ''journal-db''
     = Some (Inr [(''Trip.md'',
         ''---\<newline>Written: 2024-03-01\<newline>---\<newline>\<newline>**Packed bags**\<newline>\<newline>- [ ] Buy tickets\<newline>'')])"
  by (simp add: eval_defs run_defs trip_nested_def trip_flat_def)

text \<open>
  The claim as the specification words it fails: with the to-do nested under the
  paragraph the export is not the text the claim gives.
\<close>

theorem trip_export_counterexample:
  "run (Suc (Suc 0)) trip_nested ''journal-db''
     \<noteq> Some (Inr [(''Trip.md'',
         ''---\<newline>Written: 2024-03-01\<newline>---\<newline>\<newline>**Packed bags**\<newline>\<newline>- [ ] Buy tickets\<newline>'')])"
  by (simp add: eval_defs run_defs trip_nested_def)

subsection \<open>Paginated listings\<close>



lemma fetchPage_blocks_failure:
  assumes "blocks_children_list notion
             \<lparr>block_id = blockId, page_size = 100, start_cursor = cursor\<rparr> = Inl e"
  shows "fetchPage_blocks notion blockId cursor acc sent
           = Some (sent @ [\<lparr>block_id = blockId, page_size = 100, start_cursor = cursor\<rparr>], Inl e)"
  using assms by (subst fetchPage_blocks.simps) (simp add: Let_def)




subsection \<open>Listing the pages of the database\<close>

lemma set_full_entries: "set (full_entries es) = {x. Full x \<in> set es}"
  by (induction es rule: full_entries.induct) auto

text \<open>What the listing of one data source can return and how it can fail.\<close>

lemma fetchPage_pages_provenance_aux:
  assumes "fetchPage_pages notion ds cursor acc sent = Some y"
  shows "(\<forall>q \<in> set sent. data_source_id q = ds) \<longrightarrow>
     (\<forall>p \<in> set acc. \<exists>q r. data_source_id q = ds \<and> dataSources_query notion q = Inr r
            \<and> Full p \<in> set (results r)) \<longrightarrow>
     (\<forall>q \<in> set (fst y). data_source_id q = ds)
       \<and> (\<forall>pages. snd y = Inr pages \<longrightarrow>
            (\<forall>p \<in> set pages. \<exists>q r. data_source_id q = ds \<and> dataSources_query notion q = Inr r
               \<and> Full p \<in> set (results r)))
       \<and> (\<forall>e. snd y = Inl e \<longrightarrow>
            (\<exists>q. data_source_id q = ds \<and> dataSources_query notion q = Inl e))"
  using assms
proof (induct rule: fetchPage_pages.raw_induct [rotated 1, consumes 1, case_names step])
  case (step fetchPage notion ds cursor acc sent y)
  let ?q = "\<lparr>data_source_id = ds, query_page_size = 100, query_start_cursor = cursor\<rparr>"
  show ?case
  proof (intro impI)
  assume prems: "\<forall>q \<in> set sent. data_source_id q = ds"
     "\<forall>p \<in> set acc. \<exists>q r. data_source_id q = ds \<and> dataSources_query notion q = Inr r
            \<and> Full p \<in> set (results r)"
  have sent': "\<forall>q \<in> set (sent @ [?q]). data_source_id q = ds" using prems(1) by simp
  show "(\<forall>q \<in> set (fst y). data_source_id q = ds)
       \<and> (\<forall>pages. snd y = Inr pages \<longrightarrow>
            (\<forall>p \<in> set pages. \<exists>q r. data_source_id q = ds \<and> dataSources_query notion q = Inr r
               \<and> Full p \<in> set (results r)))
       \<and> (\<forall>e. snd y = Inl e \<longrightarrow>
            (\<exists>q. data_source_id q = ds \<and> dataSources_query notion q = Inl e))"
  proof (cases "dataSources_query notion ?q")
    case (Inl e)
    with step(2) have "y = (sent @ [?q], Inl e)" by (simp add: Let_def)
    with sent' Inl show ?thesis by (auto intro: exI [of _ ?q])
  next
    case (Inr r)
    let ?acc = "acc @ full_entries (results r)"
    have acc': "\<forall>p \<in> set ?acc. \<exists>q r. data_source_id q = ds \<and> dataSources_query notion q = Inr r
            \<and> Full p \<in> set (results r)"
    proof
      fix p assume "p \<in> set ?acc"
      then consider "p \<in> set acc" | "Full p \<in> set (results r)"
        by (auto simp: set_full_entries)
      then show "\<exists>q r. data_source_id q = ds \<and> dataSources_query notion q = Inr r
            \<and> Full p \<in> set (results r)"
      proof cases
        case 1
        with prems(2) show ?thesis by blast
      next
        case 2
        with Inr show ?thesis by (intro exI [of _ ?q] exI [of _ r]) simp
      qed
    qed
    show ?thesis
    proof (cases "\<exists>n. next_cursor r = Some n \<and> has_more r \<and> n \<noteq> []")
      case True
      then obtain n where n: "next_cursor r = Some n" "has_more r" "n \<noteq> []" by blast
      with step(2) Inr have "fetchPage notion ds (Some n) ?acc (sent @ [?q]) = Some y"
        by (simp add: Let_def)
      from step(1) [OF this] sent' acc' show ?thesis by blast
    next
      case False
      with step(2) Inr have "y = (sent @ [?q], Inr ?acc)"
        by (auto simp: Let_def split: option.splits if_splits)
      with sent' acc' show ?thesis by simp
    qed
  qed
  qed
qed

lemma fetchPage_pages_provenance:
  assumes "fetchPage_pages notion ds cursor acc sent = Some y"
    and "\<forall>q \<in> set sent. data_source_id q = ds"
    and "\<forall>p \<in> set acc. \<exists>q r. data_source_id q = ds \<and> dataSources_query notion q = Inr r
            \<and> Full p \<in> set (results r)"
  shows "(\<forall>q \<in> set (fst y). data_source_id q = ds)
       \<and> (\<forall>pages. snd y = Inr pages \<longrightarrow>
            (\<forall>p \<in> set pages. \<exists>q r. data_source_id q = ds \<and> dataSources_query notion q = Inr r
               \<and> Full p \<in> set (results r)))
       \<and> (\<forall>e. snd y = Inl e \<longrightarrow>
            (\<exists>q. data_source_id q = ds \<and> dataSources_query notion q = Inl e))"
  using fetchPage_pages_provenance_aux [OF assms(1)] assms(2,3) by blast

text \<open>The listing reads the client only through the queries on its data source.\<close>

lemma fetchPage_pages_agree_aux:
  assumes "fetchPage_pages notion ds cursor acc sent = Some y"
  shows "(\<forall>q. data_source_id q = ds \<longrightarrow> dataSources_query notion' q = dataSources_query notion q)
     \<longrightarrow> fetchPage_pages notion' ds cursor acc sent = Some y"
  using assms
proof (induct rule: fetchPage_pages.raw_induct [rotated 1, consumes 1, case_names step])
  case (step fetchPage notion ds cursor acc sent y)
  let ?q = "\<lparr>data_source_id = ds, query_page_size = 100, query_start_cursor = cursor\<rparr>"
  show ?case
  proof (intro impI)
  assume agree: "\<forall>q. data_source_id q = ds \<longrightarrow>
      dataSources_query notion' q = dataSources_query notion q"
  then have same: "dataSources_query notion' ?q = dataSources_query notion ?q"
    by simp
  show "fetchPage_pages notion' ds cursor acc sent = Some y"
  proof (cases "dataSources_query notion ?q")
    case (Inl e)
    with step(2) same show ?thesis
      by (subst fetchPage_pages.simps) (simp add: Let_def)
  next
    case (Inr r)
    show ?thesis
    proof (cases "\<exists>n. next_cursor r = Some n \<and> has_more r \<and> n \<noteq> []")
      case True
      then obtain n where n: "next_cursor r = Some n" "has_more r" "n \<noteq> []" by blast
      with step(2) Inr
      have "fetchPage notion ds (Some n) (acc @ full_entries (results r)) (sent @ [?q]) = Some y"
        by (simp add: Let_def)
      from step(1) [OF this] agree
      have "fetchPage_pages notion' ds (Some n) (acc @ full_entries (results r)) (sent @ [?q])
              = Some y" by blast
      with same Inr n show ?thesis
        by (subst fetchPage_pages.simps) (simp add: Let_def)
    next
      case False
      with step(2) Inr same show ?thesis
        by (subst fetchPage_pages.simps) (auto simp: Let_def split: option.splits if_splits)
    qed
  qed
  qed
qed

lemma fetchPage_pages_agree_Some:
  assumes "fetchPage_pages notion ds cursor acc sent = Some y"
    and "\<forall>q. data_source_id q = ds \<longrightarrow> dataSources_query notion' q = dataSources_query notion q"
  shows "fetchPage_pages notion' ds cursor acc sent = Some y"
  using fetchPage_pages_agree_aux [OF assms(1)] assms(2) by blast

lemma fetchPage_pages_agree:
  assumes "\<forall>q. data_source_id q = ds \<longrightarrow> dataSources_query notion' q = dataSources_query notion q"
  shows "fetchPage_pages notion' ds cursor acc sent = fetchPage_pages notion ds cursor acc sent"
proof (cases "fetchPage_pages notion ds cursor acc sent")
  case (Some y)
  from fetchPage_pages_agree_Some [OF Some assms] Some show ?thesis by simp
next
  case None
  show ?thesis
  proof (cases "fetchPage_pages notion' ds cursor acc sent")
    case (Some y)
    from assms have "\<forall>q. data_source_id q = ds \<longrightarrow>
        dataSources_query notion q = dataSources_query notion' q" by simp
    from fetchPage_pages_agree_Some [OF Some this] None show ?thesis by simp
  next
    case None': None
    with None show ?thesis by simp
  qed
qed

text \<open>
  C10. When the database reports the data sources \<open>firstDataSource # others\<close>,
  \<open>fetchAllPages\<close> behaves as for the database with \<open>firstDataSource\<close> alone: every query
  it sends names the first data source, every page it returns was listed by a response
  to such a query, and it fails only with the failure of such a query. What the client
  answers for any other data source has no effect on the outcome, and the further data
  sources raise no error.
\<close>

theorem fetchAllPages_first_data_source_only:
  assumes "databases_retrieve notion notionDatabaseId = Inr database"
    and "data_sources database = Some (firstDataSource # others)"
  shows "fetchAllPages notion notionDatabaseId
           = fetchAllPages
               (notion\<lparr>databases_retrieve :=
                  (\<lambda>i. Inr (database\<lparr>data_sources := Some [firstDataSource]\<rparr>))\<rparr>)
               notionDatabaseId
     \<and> ((\<forall>q. data_source_id q = id_data_source firstDataSource \<longrightarrow>
            dataSources_query notion' q = dataSources_query notion q)
         \<and> databases_retrieve notion' = databases_retrieve notion \<longrightarrow>
         fetchAllPages notion' notionDatabaseId = fetchAllPages notion notionDatabaseId)
     \<and> (\<forall>sent res. fetchAllPages notion notionDatabaseId = Some (sent, res) \<longrightarrow>
           (\<forall>q \<in> set sent. data_source_id q = id_data_source firstDataSource)
         \<and> (\<forall>pages. res = Inr pages \<longrightarrow>
              (\<forall>p \<in> set pages. \<exists>q r. data_source_id q = id_data_source firstDataSource
                   \<and> dataSources_query notion q = Inr r \<and> Full p \<in> set (results r)))
         \<and> (\<forall>e. res = Inl e \<longrightarrow>
              (\<exists>q. data_source_id q = id_data_source firstDataSource
                   \<and> dataSources_query notion q = Inl e)))"
proof -
  let ?ds = "id_data_source firstDataSource"
  have unfold: "fetchAllPages notion notionDatabaseId = fetchPage_pages notion ?ds None [] []"
    using assms by (simp add: fetchAllPages_def)
  let ?single = "notion\<lparr>databases_retrieve :=
                  (\<lambda>i. Inr (database\<lparr>data_sources := Some [firstDataSource]\<rparr>))\<rparr>"
  have "fetchAllPages ?single notionDatabaseId = fetchPage_pages ?single ?ds None [] []"
    by (simp add: fetchAllPages_def)
  also have "\<dots> = fetchPage_pages notion ?ds None [] []"
    by (rule fetchPage_pages_agree) simp
  finally have one: "fetchAllPages notion notionDatabaseId = fetchAllPages ?single notionDatabaseId"
    using unfold by simp
  have two: "fetchAllPages notion' notionDatabaseId = fetchAllPages notion notionDatabaseId"
    if "\<forall>q. data_source_id q = ?ds \<longrightarrow> dataSources_query notion' q = dataSources_query notion q"
      and "databases_retrieve notion' = databases_retrieve notion"
  proof -
    from that(2) assms
    have "fetchAllPages notion' notionDatabaseId = fetchPage_pages notion' ?ds None [] []"
      by (simp add: fetchAllPages_def)
    with fetchPage_pages_agree [OF that(1)] unfold show ?thesis by simp
  qed
  have three: "(\<forall>q \<in> set sent. data_source_id q = ?ds)
         \<and> (\<forall>pages. res = Inr pages \<longrightarrow>
              (\<forall>p \<in> set pages. \<exists>q r. data_source_id q = ?ds
                   \<and> dataSources_query notion q = Inr r \<and> Full p \<in> set (results r)))
         \<and> (\<forall>e. res = Inl e \<longrightarrow>
              (\<exists>q. data_source_id q = ?ds \<and> dataSources_query notion q = Inl e))"
    if "fetchAllPages notion notionDatabaseId = Some (sent, res)" for sent res
    using fetchPage_pages_provenance [of notion ?ds None "[]" "[]" "(sent, res)"] that unfold
    by simp
  from one two three show ?thesis by blast
qed

theorem fetchAllPages_first_data_source_only_witness:
  "fetchAllPages two_sources ''db''
     = Some ([\<lparr>data_source_id = ''first'', query_page_size = 100, query_start_cursor = None\<rparr>],
             Inr [page_of ''in-first''])
   \<and> page_of ''in-second'' \<notin> set [page_of ''in-first'']"
proof -
  let ?first = "\<lparr>id_data_source = ''first'', name_data_source = ''Journal''\<rparr>"
  let ?second = "\<lparr>id_data_source = ''second'', name_data_source = ''Archive''\<rparr>"
  have db: "databases_retrieve two_sources ''db'' = Inr two_sources_db"
    by (simp add: two_sources_def)
  have ds: "data_sources two_sources_db = Some (?first # [?second])"
    by (simp add: two_sources_db_def)
  note facts = fetchAllPages_first_data_source_only [OF db ds]
  have "fetchAllPages
          (two_sources\<lparr>databases_retrieve :=
             (\<lambda>i. Inr (two_sources_db\<lparr>data_sources := Some [?first]\<rparr>))\<rparr>) ''db''
        = Some ([\<lparr>data_source_id = ''first'', query_page_size = 100,
                   query_start_cursor = None\<rparr>], Inr [page_of ''in-first''])"
    by (simp add: fetchAllPages_def fetchPage_pages.simps two_sources_def two_sources_db_def
        last_page_def Let_def)
  with facts [THEN conjunct1] show ?thesis by (simp add: page_of_def)
qed

subsection \<open>Unique file names\<close>





















end
